theory Spec2Isabelle
  imports Complex_Main "HOL-Library.AList" "HOL-Library.Multiset"
begin

section \<open>Python values, errors and the environment protocol\<close>

text \<open>
  The environments of \<^verbatim>\<open>common/envs.py\<close> exchange Python dictionaries, numbers and
  numpy arrays. A numpy array is a shape with its elements in row-major order. A dictionary
  with string keys is an association list in insertion order, updated with
  \<^const>\<open>AList.update\<close>: a key that is present keeps its place and takes the new value,
  a new key goes to the end, as in Python.
\<close>

datatype py_error =
  AssertionError | KeyError | ValueError | TypeError | IndexError | AttributeError
  | UnboundLocalError | SimulatorError

text \<open>A float is a finite number (taken as a real: rounding is left out), an infinity or
  NaN.\<close>

datatype npfloat = Fin real | PosInf | NegInf | NaN


datatype pyval =
  PNone
  | PBool bool
  | PInt int
  | PFloat npfloat
  | PStr string
  | PArray "nat list" "pyval list"
  | PDict "(string \<times> pyval) list"

type_synonym pydict = "(string \<times> pyval) list"

text \<open>
  What \<^verbatim>\<open>step\<close> returns: \<^verbatim>\<open>(obs, reward, done, info)\<close>. The observation, the reward
  and the flag are Python values; \<^verbatim>\<open>info\<close> is a dictionary (every environment of the
  file builds it as one, and gym's protocol says so).
\<close>

type_synonym step_result = "pyval \<times> pyval \<times> pyval \<times> pydict"



section \<open>TimeLimit\<close>

text \<open>
  \<^verbatim>\<open>
  class TimeLimit:
      def __init__(self, env, duration):
          self._env = env; self._duration = duration; self._step = None
      def step(self, action):
          assert self._step is not None, 'Must reset environment.'
          obs, reward, done, info = self._env.step(action)
          self._step += 1
          if self._step >= self._duration:
              done = True
              if 'discount' not in info:
                  info['discount'] = np.array(1.0).astype(np.float32)
              self._step = None
          return obs, reward, done, info
      def reset(self):
          self._step = 0
          return self._env.reset()
  \<close>
  The wrapped environment is a state \<open>'e\<close> with its \<^verbatim>\<open>step\<close> and \<^verbatim>\<open>reset\<close> given as
  functions that return the new state and either the error raised or the value returned.
\<close>

record 'e TimeLimit =
  tl_env :: 'e
  tl_duration :: int
  tl_step :: "int option"

definition TimeLimit_init :: "'e \<Rightarrow> int \<Rightarrow> 'e TimeLimit" where
  "TimeLimit_init env duration = \<lparr>tl_env = env, tl_duration = duration, tl_step = None\<rparr>"

definition TimeLimit_step ::
  "('a \<Rightarrow> 'e \<Rightarrow> (py_error + step_result) \<times> 'e) \<Rightarrow> 'a \<Rightarrow> 'e TimeLimit
    \<Rightarrow> (py_error + step_result) \<times> 'e TimeLimit" where
  "TimeLimit_step env_step action self =
     (case tl_step self of
        None \<Rightarrow> (Inl AssertionError, self)
      | Some c \<Rightarrow>
          (case env_step action (tl_env self) of
             (Inl e, env') \<Rightarrow> (Inl e, self\<lparr>tl_env := env'\<rparr>)
           | (Inr (obs, reward, done, info), env') \<Rightarrow>
               (if c + 1 \<ge> tl_duration self
                then (Inr (obs, reward, PBool True,
                           (if map_of info ''discount'' = None
                            then AList.update ''discount'' (PFloat (Fin 1)) info else info)),
                      self\<lparr>tl_env := env', tl_step := None\<rparr>)
                else (Inr (obs, reward, done, info),
                      self\<lparr>tl_env := env', tl_step := Some (c + 1)\<rparr>))))"

definition TimeLimit_reset ::
  "('e \<Rightarrow> (py_error + pyval) \<times> 'e) \<Rightarrow> 'e TimeLimit \<Rightarrow> (py_error + pyval) \<times> 'e TimeLimit" where
  "TimeLimit_reset env_reset self =
     (case env_reset (tl_env (self\<lparr>tl_step := Some 0\<rparr>)) of
        (r, env') \<Rightarrow> (r, self\<lparr>tl_step := Some 0, tl_env := env'\<rparr>))"

text \<open>A sequence of calls of \<^verbatim>\<open>step\<close>, one per action, with the values they return.\<close>

fun TimeLimit_steps ::
  "('a \<Rightarrow> 'e \<Rightarrow> (py_error + step_result) \<times> 'e) \<Rightarrow> 'a list \<Rightarrow> 'e TimeLimit
    \<Rightarrow> (py_error + step_result) list \<times> 'e TimeLimit" where
  "TimeLimit_steps env_step [] self = ([], self)"
| "TimeLimit_steps env_step (a # as) self =
     (case TimeLimit_step env_step a self of
        (r, self') \<Rightarrow> (case TimeLimit_steps env_step as self' of (rs, self'') \<Rightarrow> (r # rs, self'')))"

text \<open>A wrapped environment whose \<^verbatim>\<open>step\<close> returns normally on every action and state.\<close>

definition never_raises :: "('a \<Rightarrow> 'e \<Rightarrow> (py_error + step_result) \<times> 'e) \<Rightarrow> bool" where
  "never_raises env_step = (\<forall>a e. \<exists>r e'. env_step a e = (Inr r, e'))"

text \<open>A wrapped environment for the examples: it counts its steps and returns an empty
  observation, as \<^verbatim>\<open>Dummy\<close> does.\<close>

definition dummy_inner :: "'a \<Rightarrow> nat \<Rightarrow> (py_error + step_result) \<times> nat" where
  "dummy_inner a e = (Inr (PDict [], PFloat (Fin 0), PBool False, []), Suc e)"


text \<open>Sequencing of calls that may raise: the first error ends the computation.\<close>

fun bind_err :: "'e + 'a \<Rightarrow> ('a \<Rightarrow> 'e + 'b) \<Rightarrow> 'e + 'b" where
  "bind_err (Inl e) f = Inl e"
| "bind_err (Inr x) f = f x"

section \<open>OneHotAction\<close>

text \<open>
  \<^verbatim>\<open>
  def step(self, action):
      action_indices = {}
      for k in self._keys:
          index = np.argmax(action[k]).astype(int)
          reference = np.zeros_like(action[k])
          reference[index] = 1
          if not np.allclose(reference, action[k]):
              action_indices[k] = -1
          else:
              action_indices[k] = index
      return self._env.step(action_indices)
  \<close>
  An action is a dictionary of one-dimensional arrays of finite numbers.
  \<^verbatim>\<open>np.argmax\<close> returns the first position of the largest element and raises ValueError
  on an empty array. \<^verbatim>\<open>np.allclose(a, b)\<close> has the default tolerances
  \<^verbatim>\<open>rtol=1e-05, atol=1e-08\<close> and holds when \<^verbatim>\<open>|a - b| <= atol + rtol * |b|\<close> at every
  position.

  numpy evaluates the two sides of that comparison in the floating-point format of the
  arrays (float32 for an action of the \<^verbatim>\<open>Box\<close> that \<^verbatim>\<open>action_space\<close> advertises), and each
  of its operations rounds: \<^verbatim>\<open>a - b\<close> (exact when \<^verbatim>\<open>a\<close> is 0), the conversions of
  \<^verbatim>\<open>atol\<close> and \<^verbatim>\<open>rtol\<close>, the product and the sum. In float32 and in float64 each
  rounding has a relative error of at most \<open>2^-24\<close>, so the computed left side is the
  exact one up to a factor within \<open>1 \<plusminus> 2^-24\<close> and the computed right side is the exact
  one up to a factor within \<open>1 \<plusminus> 2^-22\<close>. Hence the comparison surely holds when the
  exact left side is at most \<open>1 - 2^-21\<close> times the exact right side and surely fails
  when it is more than \<open>1 + 2^-21\<close> times the exact right side; between the two the
  rounding of the format decides. That decision is the parameter \<open>rounding\<close>.
\<close>

fun argmax_from :: "nat \<Rightarrow> real \<Rightarrow> nat \<Rightarrow> real list \<Rightarrow> nat" where
  "argmax_from best bv i [] = best"
| "argmax_from best bv i (x # xs) =
     (if bv < x then argmax_from i x (Suc i) xs else argmax_from best bv (Suc i) xs)"

fun np_argmax :: "real list \<Rightarrow> py_error + nat" where
  "np_argmax [] = Inl ValueError"
| "np_argmax (x # xs) = Inr (argmax_from 0 x 1 xs)"

definition within_tolerance :: "real \<Rightarrow> real \<Rightarrow> real \<Rightarrow> bool" where
  "within_tolerance slack x y = (\<bar>x - y\<bar> \<le> (1 / 10 ^ 8 + 1 / 10 ^ 5 * \<bar>y\<bar>) * slack)"

definition np_allclose ::
  "(real list \<Rightarrow> real list \<Rightarrow> bool) \<Rightarrow> real list \<Rightarrow> real list \<Rightarrow> bool" where
  "np_allclose rounding a b =
     (if list_all2 (within_tolerance (1 - 1 / 2 ^ 21)) a b then True
      else if \<not> list_all2 (within_tolerance (1 + 1 / 2 ^ 21)) a b then False
      else rounding a b)"

text \<open>The body of the loop: the index stored under one key.\<close>

definition one_hot_index ::
  "(real list \<Rightarrow> real list \<Rightarrow> bool) \<Rightarrow> real list \<Rightarrow> py_error + int" where
  "one_hot_index rounding v =
     (case np_argmax v of
        Inl e \<Rightarrow> Inl e
      | Inr index \<Rightarrow>
          (let reference = (replicate (length v) 0)[index := 1]
           in if \<not> np_allclose rounding reference v then Inr (- 1) else Inr (int index)))"

fun OneHotAction_indices ::
  "(real list \<Rightarrow> real list \<Rightarrow> bool) \<Rightarrow> string list \<Rightarrow> (string \<times> real list) list
    \<Rightarrow> (string \<times> int) list \<Rightarrow> py_error + (string \<times> int) list" where
  "OneHotAction_indices rounding [] action action_indices = Inr action_indices"
| "OneHotAction_indices rounding (k # ks) action action_indices =
     (case map_of action k of
        None \<Rightarrow> Inl KeyError
      | Some v \<Rightarrow>
          (case one_hot_index rounding v of
             Inl e \<Rightarrow> Inl e
           | Inr i \<Rightarrow>
               OneHotAction_indices rounding ks action (AList.update k i action_indices)))"

definition OneHotAction_step ::
  "(real list \<Rightarrow> real list \<Rightarrow> bool)
    \<Rightarrow> ((string \<times> int) list \<Rightarrow> 'e \<Rightarrow> (py_error + step_result) \<times> 'e) \<Rightarrow> string list
    \<Rightarrow> (string \<times> real list) list \<Rightarrow> 'e \<Rightarrow> (py_error + step_result) \<times> 'e" where
  "OneHotAction_step rounding env_step keys action env =
     (case OneHotAction_indices rounding keys action [] of
        Inl e \<Rightarrow> (Inl e, env)
      | Inr action_indices \<Rightarrow> env_step action_indices env)"


text \<open>The claim's words: a vector of zeros with a single entry equal to 1.\<close>

definition exactly_one_hot :: "real list \<Rightarrow> bool" where
  "exactly_one_hot v =
     (list_all (\<lambda>x. x = 0 \<or> x = 1) v \<and> length (filter (\<lambda>x. x = 1) v) = 1)"

section \<open>NormalizeAction\<close>

text \<open>
  \<^verbatim>\<open>
  class NormalizeAction:
      def __init__(self, env, key='action'):
          self._env = env
          self._key = key
          space = env.action_space[key]
          self._mask = np.isfinite(space.low) & np.isfinite(space.high)
          self._low = np.where(self._mask, space.low, -1)
          self._high = np.where(self._mask, space.high, 1)
      @property
      def action_space(self):
          low = np.where(self._mask, -np.ones_like(self._low), self._low)
          high = np.where(self._mask, np.ones_like(self._low), self._high)
          space = gym.spaces.Box(low, high, dtype=np.float32)
          return {**self._env.action_space.spaces, self._key: space}
      def step(self, action):
          orig = (action[self._key] + 1) / 2 * (self._high - self._low) + self._low
          orig = np.where(self._mask, orig, action[self._key])
          return self._env.step({**action, self._key: orig})
  \<close>
  Arrays are one-dimensional; numpy combines two arrays of the same length position by
  position, repeats an array of length one, and raises ValueError on any other pair of
  lengths.

  The arithmetic is IEEE's, in the floating-point formats of the arrays: an operation on
  two finite numbers rounds its exact result to the format of its result, and a result too
  large for that format is an infinity. The formats are not the repository's: the rounding
  of a format is a parameter, which takes the exact result of an operation to the float
  that the operation returns. The operations on infinities and NaN are the standard's.
  numpy computes \<^verbatim>\<open>action + 1\<close> and the division by 2 in the format of the action
  (\<open>rnd_a\<close>), \<^verbatim>\<open>high - low\<close> in the format of the bounds (\<open>rnd_b\<close>), and the product and
  the last sum, which combine the two arrays, in the wider of the two formats (\<open>rnd\<close>).
  When the action and the stored bounds are of one format, the three are the same.
\<close>









datatype space = Box "npfloat list" "npfloat list" | Discrete nat









section \<open>Sc2\<close>

text \<open>
  A pysc2 function as the adapter reads it: its id, its \<^verbatim>\<open>general_id\<close> and the ids of the
  argument types it requires, in the order of its argument spec. The table
  \<^verbatim>\<open>actions._FUNCTIONS\<close>, the lookups \<^verbatim>\<open>get_unit_embed_lookup()\<close> and
  \<^verbatim>\<open>get_arg_size_lookup(screen_size, minimap_size)\<close>, the enumerations \<^verbatim>\<open>Player\<close> and
  \<^verbatim>\<open>FeatureUnit\<close>, and \<^verbatim>\<open>action_spec()[0].functions\<close> belong to pysc2: they are
  parameters. A dictionary with integer keys is an association list in insertion order.
\<close>

record pysc2_function =
  fn_id :: int
  general_id :: int
  args :: "int list"

datatype FunctionCall = FunctionCall int "int list list"

record 'e Sc2 =
  blocked_actions :: "int list"
  unit_embed_lookup :: "(int \<times> int) list"
  action_embed_lookup :: "(int \<times> nat) list"
  action_id_lookup :: "(nat \<times> int) list"
  args_size_lookup :: "(int \<times> nat list) list"
  unit_max :: int
  sc_env :: 'e

text \<open>
  \<^verbatim>\<open>
  def _get_action_lookup(self):
      lookup = {}
      index = 0
      for f in actions._FUNCTIONS:
          if f.general_id == 0 and f.id not in self.blocked_actions:
              lookup[int(f.id)] = index
              index += 1
      return lookup
  \<close>
\<close>

fun get_action_lookup_loop ::
  "int list \<Rightarrow> pysc2_function list \<Rightarrow> (int \<times> nat) list \<Rightarrow> nat \<Rightarrow> (int \<times> nat) list" where
  "get_action_lookup_loop blocked [] lookup index = lookup"
| "get_action_lookup_loop blocked (f # fs) lookup index =
     (if general_id f = 0 \<and> fn_id f \<notin> set blocked
      then get_action_lookup_loop blocked fs (AList.update (fn_id f) index lookup) (index + 1)
      else get_action_lookup_loop blocked fs lookup index)"

definition get_action_lookup :: "int list \<Rightarrow> pysc2_function list \<Rightarrow> (int \<times> nat) list" where
  "get_action_lookup blocked FUNCTIONS = get_action_lookup_loop blocked FUNCTIONS [] 0"

text \<open>\<^verbatim>\<open>dict((reversed(item) for item in d.items()))\<close>: the pairs of \<open>d\<close>, each turned around,
  stored in order.\<close>

definition reversed_dict :: "('k \<times> 'v) list \<Rightarrow> ('v \<times> 'k) list" where
  "reversed_dict d = foldl (\<lambda>acc (k, v). AList.update v k acc) [] d"

text \<open>The part of \<^verbatim>\<open>__init__\<close> that builds the lookups; \<^verbatim>\<open>blocked_actions = [4]\<close>.\<close>

definition Sc2_init ::
  "pysc2_function list \<Rightarrow> (int \<times> int) list \<Rightarrow> (int \<times> nat list) list \<Rightarrow> int \<Rightarrow> 'e \<Rightarrow> 'e Sc2" where
  "Sc2_init FUNCTIONS unit_lookup arg_sizes max_units env =
     \<lparr>blocked_actions = [4],
      unit_embed_lookup = unit_lookup,
      action_embed_lookup = get_action_lookup [4] FUNCTIONS,
      action_id_lookup = reversed_dict (get_action_lookup [4] FUNCTIONS),
      args_size_lookup = arg_sizes,
      unit_max = max_units,
      sc_env = env\<rparr>"

text \<open>Python's \<^verbatim>\<open>str\<close> of an integer, as the f-string of \<^verbatim>\<open>_get_arg_keys\<close> formats it.\<close>

function str_nat :: "nat \<Rightarrow> string" where
  "str_nat n =
     (if n < 10 then [''0123456789'' ! n]
      else str_nat (n div 10) @ [''0123456789'' ! (n mod 10)])"
  by pat_completeness auto
termination
  by (relation "measure id") auto

definition str_int :: "int \<Rightarrow> string" where
  "str_int i = (if i < 0 then ''-'' @ str_nat (nat (- i)) else str_nat (nat i))"

text \<open>
  \<^verbatim>\<open>
  def _get_arg_keys(self, arg_id):
      keys = []
      for i, size in enumerate(self.args_size_lookup[arg_id]):
          keys.append(f'arg_{arg_id}_{i}')
      return keys
  \<close>
\<close>

definition arg_key :: "int \<Rightarrow> nat \<Rightarrow> string" where
  "arg_key arg_id i = ''arg_'' @ str_int arg_id @ ''_'' @ str_nat i"

definition get_arg_keys :: "(int \<times> nat list) list \<Rightarrow> int \<Rightarrow> py_error + string list" where
  "get_arg_keys arg_sizes arg_id =
     (case map_of arg_sizes arg_id of
        None \<Rightarrow> Inl KeyError
      | Some sizes \<Rightarrow> Inr (map (\<lambda>(i, size). arg_key arg_id i) (enumerate 0 sizes)))"

text \<open>
  \<^verbatim>\<open>
  @property
  def action_space(self):
      action_id = gym.spaces.Discrete(len(self.action_embed_lookup))
      action_args = {'action_id': action_id}
      for arg_id in self.args_size_lookup:
          arg_keys = self._get_arg_keys(arg_id)
          for i, size in enumerate(self.args_size_lookup[arg_id]):
              action_args[arg_keys[i]] = gym.spaces.Discrete(size)
      return action_args
  \<close>
\<close>

fun action_space_args ::
  "(int \<times> nat list) list \<Rightarrow> (int \<times> nat list) list \<Rightarrow> (string \<times> space) list
    \<Rightarrow> (string \<times> space) list" where
  "action_space_args arg_sizes [] action_args = action_args"
| "action_space_args arg_sizes ((arg_id, sizes) # rest) action_args =
     action_space_args arg_sizes rest
       (foldl (\<lambda>acc (i, size). AList.update (arg_key arg_id i) (Discrete size) acc)
          action_args (enumerate 0 sizes))"

definition Sc2_action_space :: "'e Sc2 \<Rightarrow> (string \<times> space) list" where
  "Sc2_action_space self =
     action_space_args (args_size_lookup self) (args_size_lookup self)
       [(''action_id'', Discrete (length (action_embed_lookup self)))]"

text \<open>\<^verbatim>\<open>d[k]\<close> on a dictionary, and the values of a list of keys in order.\<close>

definition getitem :: "('k \<times> 'v) list \<Rightarrow> 'k \<Rightarrow> py_error + 'v" where
  "getitem d k = (case map_of d k of None \<Rightarrow> Inl KeyError | Some v \<Rightarrow> Inr v)"

fun getitems :: "('k \<times> 'v) list \<Rightarrow> 'k list \<Rightarrow> py_error + 'v list" where
  "getitems d [] = Inr []"
| "getitems d (k # ks) =
     bind_err (getitem d k) (\<lambda>v. bind_err (getitems d ks) (\<lambda>vs. Inr (v # vs)))"

text \<open>The key lists of the required arguments, with the first error.\<close>

fun arg_keys_of :: "(int \<times> nat list) list \<Rightarrow> int list \<Rightarrow> py_error + string list list" where
  "arg_keys_of arg_sizes [] = Inr []"
| "arg_keys_of arg_sizes (r # rs) =
     bind_err (get_arg_keys arg_sizes r) (\<lambda>ks.
     bind_err (arg_keys_of arg_sizes rs) (\<lambda>kss. Inr (ks # kss)))"

text \<open>
  \<^verbatim>\<open>
  @property
  def action_arg_lookup(self):
      action_spec = self._env.action_spec()[0]
      action_arg_reqs = {}
      for action_id in self.action_id_lookup:
          args_list = []
          required_args = action_spec.functions[self.action_id_lookup[action_id]].args
          for r in required_args:
              args_list += self._get_arg_keys(r.id)
          action_arg_reqs[action_id] = args_list
      return action_arg_reqs
  \<close>
  \<open>functions\<close> is pysc2's \<^verbatim>\<open>action_spec.functions[...]\<close>: the function of an id, or the error
  it raises.
\<close>

fun action_arg_lookup_loop ::
  "(int \<Rightarrow> py_error + pysc2_function) \<Rightarrow> (int \<times> nat list) list \<Rightarrow> (nat \<times> int) list
    \<Rightarrow> nat list \<Rightarrow> (nat \<times> string list) list \<Rightarrow> py_error + (nat \<times> string list) list" where
  "action_arg_lookup_loop functions arg_sizes id_lookup [] action_arg_reqs = Inr action_arg_reqs"
| "action_arg_lookup_loop functions arg_sizes id_lookup (action_id # rest) action_arg_reqs =
     bind_err (getitem id_lookup action_id) (\<lambda>sc_id.
     bind_err (functions sc_id) (\<lambda>f.
     bind_err (arg_keys_of arg_sizes (args f)) (\<lambda>kss.
     action_arg_lookup_loop functions arg_sizes id_lookup rest
       (AList.update action_id (concat kss) action_arg_reqs))))"

definition Sc2_action_arg_lookup ::
  "(int \<Rightarrow> py_error + pysc2_function) \<Rightarrow> 'e Sc2 \<Rightarrow> py_error + (nat \<times> string list) list" where
  "Sc2_action_arg_lookup functions self =
     action_arg_lookup_loop functions (args_size_lookup self) (action_id_lookup self)
       (map fst (action_id_lookup self)) []"

text \<open>
  The first part of \<^verbatim>\<open>step\<close>, up to the \<^verbatim>\<open>FunctionCall\<close>:
  \<^verbatim>\<open>
  args = []
  action_id = self.action_id_lookup[action['action_id']]
  required_args = [arg for arg in self.available_actions.functions[action_id].args]
  for r in required_args:
      arg_set = []
      for k in self._get_arg_keys(r.id):
          arg_set.append(action[k])
      args.append(arg_set)
  sc2_action = actions.FunctionCall(action_id, args)
  \<close>
  An action is a dictionary of integers.
\<close>

fun arg_sets :: "(int \<times> nat list) list \<Rightarrow> (string \<times> int) list \<Rightarrow> int list
    \<Rightarrow> py_error + int list list" where
  "arg_sets arg_sizes action [] = Inr []"
| "arg_sets arg_sizes action (r # rs) =
     bind_err (get_arg_keys arg_sizes r) (\<lambda>ks.
     bind_err (getitems action ks) (\<lambda>arg_set.
     bind_err (arg_sets arg_sizes action rs) (\<lambda>rest. Inr (arg_set # rest))))"

definition Sc2_function_call ::
  "(int \<Rightarrow> py_error + pysc2_function) \<Rightarrow> 'e Sc2 \<Rightarrow> (string \<times> int) list
    \<Rightarrow> py_error + FunctionCall" where
  "Sc2_function_call functions self action =
     bind_err (getitem action ''action_id'') (\<lambda>a.
     bind_err (if a < 0 then Inl KeyError else getitem (action_id_lookup self) (nat a))
       (\<lambda>action_id.
     bind_err (functions action_id) (\<lambda>f.
     bind_err (arg_sets (args_size_lookup self) action (args f)) (\<lambda>args.
     Inr (FunctionCall action_id args)))))"

text \<open>The claim's words: the keys \<^verbatim>\<open>arg_{arg_id}_{i}\<close>, for each argument that the function
  requires, in the order of its argument spec, and each dimension \<open>i\<close> of the argument.\<close>

definition required_arg_keys :: "(int \<times> nat list) list \<Rightarrow> pysc2_function \<Rightarrow> string list" where
  "required_arg_keys arg_sizes f =
     concat (map (\<lambda>r. map (arg_key r) [0..<length (the (map_of arg_sizes r))]) (args f))"

section \<open>Sc2: observations, step and reset\<close>

text \<open>
  A pysc2 timestep as \<^verbatim>\<open>collect_sc_observation\<close> and \<^verbatim>\<open>step\<close> read it. Feature layers are
  two-dimensional integer arrays, found by name; \<^verbatim>\<open>player\<close> is a vector and
  \<^verbatim>\<open>feature_units\<close> has one row per unit. An array of arrays is a list of rows.
\<close>

record sc_observation =
  available_actions :: "int list"
  feature_screen :: "(string \<times> int list list) list"
  feature_minimap :: "(string \<times> int list list) list"
  player :: "int list"
  feature_units :: "int list list"

record sc_timestep =
  ts_reward :: real
  ts_last :: bool
  ts_observation :: sc_observation

definition getattr :: "(string \<times> 'v) list \<Rightarrow> string \<Rightarrow> py_error + 'v" where
  "getattr obj name = (case map_of obj name of None \<Rightarrow> Inl AttributeError | Some v \<Rightarrow> Inr v)"

fun getattrs :: "(string \<times> 'v) list \<Rightarrow> string list \<Rightarrow> py_error + 'v list" where
  "getattrs obj [] = Inr []"
| "getattrs obj (n # ns) =
     bind_err (getattr obj n) (\<lambda>v. bind_err (getattrs obj ns) (\<lambda>vs. Inr (v # vs)))"

definition shape2 :: "'a list list \<Rightarrow> nat \<times> nat" where
  "shape2 a = (length a, case a of [] \<Rightarrow> 0 | r # rs \<Rightarrow> length r)"

text \<open>\<^verbatim>\<open>np.stack(layers, axis=2)\<close> of two-dimensional arrays: ValueError unless there is a layer
  and all have one shape.\<close>

definition np_stack_axis2 :: "int list list list \<Rightarrow> py_error + int list list list" where
  "np_stack_axis2 layers =
     (case layers of
        [] \<Rightarrow> Inl ValueError
      | l # rest \<Rightarrow>
          if list_all (\<lambda>m. shape2 m = shape2 l) rest
          then Inr (map (\<lambda>y. map (\<lambda>x. map (\<lambda>m. m ! y ! x) layers) [0..<snd (shape2 l)])
                      [0..<fst (shape2 l)])
          else Inl ValueError)"

text \<open>\<^verbatim>\<open>a[[i, j, ...]]\<close> with indices from an enumeration (not negative), and
  \<^verbatim>\<open>a[:, [i, j, ...]]\<close>, which does the same in every row.\<close>

definition fancy_index :: "'a list \<Rightarrow> nat list \<Rightarrow> py_error + 'a list" where
  "fancy_index a idx =
     (if list_all (\<lambda>i. i < length a) idx then Inr (map (nth a) idx) else Inl IndexError)"

fun select_cols :: "nat list \<Rightarrow> 'a list list \<Rightarrow> py_error + 'a list list" where
  "select_cols cols [] = Inr []"
| "select_cols cols (r # rs) =
     bind_err (fancy_index r cols) (\<lambda>x. bind_err (select_cols cols rs) (\<lambda>xs. Inr (x # xs)))"

definition array1 :: "int list \<Rightarrow> pyval" where
  "array1 xs = PArray [length xs] (map PInt xs)"

definition array2 :: "nat \<Rightarrow> int list list \<Rightarrow> pyval" where
  "array2 width rows = PArray [length rows, width] (map PInt (concat rows))"

definition array3 :: "int list list list \<Rightarrow> pyval" where
  "array3 a =
     PArray [length a, snd (shape2 a), (case concat a of [] \<Rightarrow> 0 | c # cs \<Rightarrow> length c)]
       (map PInt (concat (concat a)))"

text \<open>
  \<^verbatim>\<open>
  av_actions = timestep.observation.available_actions
  action_indices = [self.action_embed_lookup[a] for a in av_actions
                    if a not in self.blocked_actions]
  action_categorical = np.zeros(len(self.action_embed_lookup), dtype=np.int)
  action_categorical[action_indices] = 1
  \<close>
\<close>

definition available_actions_categorical :: "'e Sc2 \<Rightarrow> int list \<Rightarrow> py_error + int list" where
  "available_actions_categorical self av_actions =
     bind_err (getitems (action_embed_lookup self)
                 (filter (\<lambda>a. a \<notin> set (blocked_actions self)) av_actions)) (\<lambda>action_indices.
     if list_all (\<lambda>i. i < length (action_embed_lookup self)) action_indices
     then Inr (map (\<lambda>j. if j \<in> set action_indices then 1 else 0)
                 [0..<length (action_embed_lookup self)])
     else Inl IndexError)"

text \<open>
  The units of \<^verbatim>\<open>collect_sc_observation\<close> (\<open>unit_cols\<close> is its list of \<^verbatim>\<open>FeatureUnit\<close>
  columns):
  \<^verbatim>\<open>
  # units on the screen => limit to 200
  units = timestep.observation.feature_units
  unit_type_ids = list(units[:, 0])
  unit_embed_ids = np.expand_dims(np.array(
      [self.unit_embed_lookup[int(x)] for x in unit_type_ids], dtype=np.long), 1)
  unit_features = units[:, [FeatureUnit.alliance, ...]]
  units_out = np.concatenate([unit_embed_ids, unit_features], 1)
  unit_dim = self.unit_max - np.size(units_out, 0)
  feature_dim = np.size(units_out, 1)
  unit_padding = np.zeros((unit_dim, feature_dim), dtype=np.long)
  obs['units'] = np.concatenate([units_out, unit_padding])
  obs['unit_count'] = np.size(units_out, 0)
  \<close>
  \<^verbatim>\<open>np.zeros\<close> raises ValueError on a negative dimension. The result is the rows of
  \<^verbatim>\<open>obs['units']\<close> with \<^verbatim>\<open>obs['unit_count']\<close>.
\<close>

definition collect_units ::
  "(int \<times> int) list \<Rightarrow> nat list \<Rightarrow> int \<Rightarrow> int list list \<Rightarrow> py_error + int list list \<times> nat" where
  "collect_units unit_lookup unit_cols max_units units =
     bind_err (select_cols [0] units) (\<lambda>unit_type_ids.
     bind_err (getitems unit_lookup (concat unit_type_ids)) (\<lambda>unit_embed_ids.
     bind_err (select_cols unit_cols units) (\<lambda>unit_features.
       (let units_out = map2 (#) unit_embed_ids unit_features;
            unit_dim = max_units - int (length units_out);
            feature_dim = 1 + length unit_cols
        in if unit_dim < 0 then Inl ValueError
           else Inr (units_out @ replicate (nat unit_dim) (replicate feature_dim 0),
                     length units_out)))))"

definition collect_sc_observation ::
  "'e Sc2 \<Rightarrow> nat list \<Rightarrow> nat list \<Rightarrow> sc_timestep \<Rightarrow> py_error + pydict" where
  "collect_sc_observation self player_cols unit_cols timestep =
     bind_err (available_actions_categorical self
                 (available_actions (ts_observation timestep))) (\<lambda>action_categorical.
     bind_err (getattrs (feature_screen (ts_observation timestep))
                 [''visibility_map'', ''height_map'', ''creep'', ''buildable'', ''pathable'',
                  ''effects'']) (\<lambda>screen_layers.
     bind_err (np_stack_axis2 screen_layers) (\<lambda>screen.
     bind_err (getattrs (feature_minimap (ts_observation timestep))
                 [''visibility_map'', ''height_map'', ''player_relative'', ''creep'',
                  ''buildable'', ''pathable'', ''camera'']) (\<lambda>mini_layers.
     bind_err (np_stack_axis2 mini_layers) (\<lambda>mini.
     bind_err (fancy_index (player (ts_observation timestep)) player_cols) (\<lambda>player_feat.
     bind_err (collect_units (unit_embed_lookup self) unit_cols (unit_max self)
                 (feature_units (ts_observation timestep))) (\<lambda>(units, unit_count).
     Inr [(''available_actions'', array1 action_categorical),
          (''screen'', array3 screen),
          (''mini'', array3 mini),
          (''player'', array1 player_feat),
          (''units'', array2 (1 + length unit_cols) units),
          (''unit_count'', PInt (int unit_count))])))))))"



section \<open>DMC\<close>






section \<open>Atari\<close>










section \<open>Dummy, RewardObs and ResetObs\<close>








section \<open>The uniform interface\<close>




section \<open>Set transformer\<close>

text \<open>
  \<^verbatim>\<open>common/models/set_transformer.py\<close>. Tensors are nested lists of reals: a matrix is the
  list of its rows, a tensor of rank three the list of its matrices (one per batch entry),
  and so on. The arithmetic is exact: \<^verbatim>\<open>tf.cast\<close> between float types is the identity. The
  TensorFlow operations raise (here ValueError) when shapes do not fit. A \<^verbatim>\<open>Dense\<close> layer is
  its kernel, given by its columns (one per output unit), and its bias if it has one; a
  \<^verbatim>\<open>LayerNormalization\<close> is its \<open>gamma\<close> and \<open>beta\<close>.
\<close>

type_synonym vec = "real list"
type_synonym mat = "real list list"
type_synonym tensor3 = "real list list list"
type_synonym tensor4 = "real list list list list"

fun sequence_err :: "('e + 'a) list \<Rightarrow> 'e + 'a list" where
  "sequence_err [] = Inr []"
| "sequence_err (r # rs) =
     bind_err r (\<lambda>x. bind_err (sequence_err rs) (\<lambda>xs. Inr (x # xs)))"

text \<open>Broadcasting of a binary operation along one axis: equal lengths go position by
  position, an axis of length one is repeated, other lengths do not fit.\<close>

definition broadcast_axis ::
  "('a \<Rightarrow> 'b \<Rightarrow> py_error + 'c) \<Rightarrow> 'a list \<Rightarrow> 'b list \<Rightarrow> py_error + 'c list" where
  "broadcast_axis f xs ys =
     (if length xs = length ys then sequence_err (map2 f xs ys)
      else if length ys = 1 then sequence_err (map (\<lambda>x. f x (hd ys)) xs)
      else if length xs = 1 then sequence_err (map (f (hd xs)) ys)
      else Inl ValueError)"

definition add_scalar :: "real \<Rightarrow> real \<Rightarrow> py_error + real" where
  "add_scalar a b = Inr (a + b)"

definition tf_add3 :: "tensor3 \<Rightarrow> tensor3 \<Rightarrow> py_error + tensor3" where
  "tf_add3 = broadcast_axis (broadcast_axis (broadcast_axis add_scalar))"

definition tf_add4 :: "tensor4 \<Rightarrow> tensor4 \<Rightarrow> py_error + tensor4" where
  "tf_add4 = broadcast_axis (broadcast_axis (broadcast_axis (broadcast_axis add_scalar)))"

definition dot :: "vec \<Rightarrow> vec \<Rightarrow> real" where
  "dot xs ys = sum_list (map2 (*) xs ys)"

text \<open>\<^verbatim>\<open>Dense(units, use_bias=False)\<close> and \<^verbatim>\<open>Dense(units)\<close> on a tensor of rank three: every
  row is multiplied with the kernel.\<close>

definition dense :: "mat \<Rightarrow> tensor3 \<Rightarrow> py_error + tensor3" where
  "dense kern x =
     (if list_all (list_all (\<lambda>r. list_all (\<lambda>col. length col = length r) kern)) x
      then Inr (map (map (\<lambda>r. map (dot r) kern)) x)
      else Inl ValueError)"

definition dense_bias :: "mat \<Rightarrow> vec \<Rightarrow> tensor3 \<Rightarrow> py_error + tensor3" where
  "dense_bias kern bias x =
     (if length bias = length kern
         \<and> list_all (list_all (\<lambda>r. list_all (\<lambda>col. length col = length r) kern)) x
      then Inr (map (map (\<lambda>r. map2 (+) (map (dot r) kern) bias)) x)
      else Inl ValueError)"

text \<open>\<^verbatim>\<open>tf.nn.leaky_relu\<close> with its default \<^verbatim>\<open>alpha=0.2\<close>.\<close>

definition leaky_relu :: "real \<Rightarrow> real" where
  "leaky_relu x = max x (2 / 10 * x)"

text \<open>\<^verbatim>\<open>LayerNormalization(epsilon=1e-6)\<close>: over the last axis, with mean and variance of the
  row.\<close>

definition layer_norm_row :: "vec \<Rightarrow> vec \<Rightarrow> vec \<Rightarrow> vec" where
  "layer_norm_row gamma beta r =
     (let mean = sum_list r / real (length r);
          var = sum_list (map (\<lambda>x. (x - mean) ^ 2) r) / real (length r)
      in map2 (\<lambda>x (g, b). (x - mean) / sqrt (var + 1 / 10 ^ 6) * g + b) r (zip gamma beta))"

definition layer_norm :: "vec \<Rightarrow> vec \<Rightarrow> tensor3 \<Rightarrow> py_error + tensor3" where
  "layer_norm gamma beta x =
     (if length gamma = length beta \<and> list_all (list_all (\<lambda>r. length r = length gamma)) x
      then Inr (map (map (layer_norm_row gamma beta)) x)
      else Inl ValueError)"

text \<open>\<^verbatim>\<open>tf.nn.softmax\<close> on the last axis.\<close>

definition softmax :: "vec \<Rightarrow> vec" where
  "softmax l = map (\<lambda>y. exp y / sum_list (map exp l)) l"

text \<open>
  \<^verbatim>\<open>tf.reshape\<close>: the elements in row-major order are cut into pieces. \<open>chunks k\<close> cuts a
  list into pieces of length \<open>k\<close>, \<open>split_into b\<close> into \<open>b\<close> pieces of one length.
\<close>

function chunks :: "nat \<Rightarrow> 'a list \<Rightarrow> 'a list list" where
  "chunks k xs = (if k = 0 \<or> xs = [] then [] else take k xs # chunks k (drop k xs))"
  by pat_completeness auto
termination
  by (relation "measure (\<lambda>(k, xs). length xs)") auto

declare chunks.simps [simp del]

definition split_into :: "nat \<Rightarrow> 'a list \<Rightarrow> 'a list list" where
  "split_into b xs =
     map (\<lambda>i. take (length xs div b) (drop (i * (length xs div b)) xs)) [0..<b]"

text \<open>\<^verbatim>\<open>tf.reshape(x, (batch_size, -1, num_heads, depth))\<close> of a tensor of rank three.\<close>

definition reshape_heads :: "nat \<Rightarrow> nat \<Rightarrow> nat \<Rightarrow> tensor3 \<Rightarrow> py_error + tensor4" where
  "reshape_heads batch_size num_heads depth x =
     (if batch_size * num_heads * depth = 0
         \<or> length (concat (concat x)) mod (batch_size * num_heads * depth) \<noteq> 0
      then Inl ValueError
      else Inr (split_into batch_size (chunks num_heads (chunks depth (concat (concat x))))))"

text \<open>\<^verbatim>\<open>tf.reshape(x, (batch_size, -1, d_model))\<close> of a tensor of rank four.\<close>

definition reshape_concat :: "nat \<Rightarrow> nat \<Rightarrow> tensor4 \<Rightarrow> py_error + tensor3" where
  "reshape_concat batch_size d_model x =
     (if batch_size * d_model = 0
         \<or> length (concat (concat (concat x))) mod (batch_size * d_model) \<noteq> 0
      then Inl ValueError
      else Inr (split_into batch_size (chunks d_model (concat (concat (concat x))))))"

text \<open>\<^verbatim>\<open>tf.transpose(x, perm=[0, 2, 1, 3])\<close>, with the length of axis 2 of the argument.\<close>

definition transpose_0213 :: "nat \<Rightarrow> tensor4 \<Rightarrow> tensor4" where
  "transpose_0213 len2 x = map (\<lambda>m. map (\<lambda>j. map (\<lambda>row. row ! j) m) [0..<len2]) x"

definition axis2_len :: "tensor4 \<Rightarrow> nat" where
  "axis2_len x = (case concat x of [] \<Rightarrow> 0 | m # ms \<Rightarrow> length m)"

definition last_len :: "tensor4 \<Rightarrow> nat" where
  "last_len x = (case concat (concat x) of [] \<Rightarrow> 0 | r # rs \<Rightarrow> length r)"

text \<open>
  \<^verbatim>\<open>tf.matmul(a, b, transpose_b=True)\<close> and \<^verbatim>\<open>tf.matmul(a, b)\<close> on matrices, and on tensors
  of rank four, whose two leading axes are broadcast.
\<close>

definition matmul_nt :: "mat \<Rightarrow> mat \<Rightarrow> py_error + mat" where
  "matmul_nt a b =
     (if list_all (\<lambda>r. list_all (\<lambda>s. length s = length r) b) a
      then Inr (map (\<lambda>r. map (dot r) b) a)
      else Inl ValueError)"

definition matmul :: "mat \<Rightarrow> mat \<Rightarrow> py_error + mat" where
  "matmul a b =
     (if list_all (\<lambda>r. length r = length b) a
         \<and> list_all (\<lambda>s. length s = (case b of [] \<Rightarrow> 0 | s0 # ss \<Rightarrow> length s0)) b
      then Inr (map (\<lambda>r. map (\<lambda>c. sum_list (map2 (\<lambda>w s. w * s ! c) r b))
                            [0..<(case b of [] \<Rightarrow> 0 | s0 # ss \<Rightarrow> length s0)]) a)
      else Inl ValueError)"

definition batch_matmul_nt :: "tensor4 \<Rightarrow> tensor4 \<Rightarrow> py_error + tensor4" where
  "batch_matmul_nt = broadcast_axis (broadcast_axis matmul_nt)"

definition batch_matmul :: "tensor4 \<Rightarrow> tensor4 \<Rightarrow> py_error + tensor4" where
  "batch_matmul = broadcast_axis (broadcast_axis matmul)"

text \<open>
  \<^verbatim>\<open>
  def scaled_dot_product_attention(q, k, v, mask):
      matmul_qk = tf.matmul(q, k, transpose_b=True)
      dk = tf.cast(tf.shape(k)[-1], tf.float32)
      matmul_qk = tf.cast(matmul_qk, tf.float32)
      scaled_attention_logits = matmul_qk / tf.math.sqrt(dk)
      if mask is not None:
          scaled_attention_logits += (mask * -1e9)
      attention_weights = tf.nn.softmax(scaled_attention_logits, axis=-1)
      output = tf.cast(tf.matmul(attention_weights, tf.cast(v, tf.float32)), v.dtype)
      return output, attention_weights
  \<close>
  The mask is a tensor of rank four: a mask of lower rank stands for the one with leading
  axes of length one.
\<close>

definition scaled_dot_product_attention ::
  "tensor4 \<Rightarrow> tensor4 \<Rightarrow> tensor4 \<Rightarrow> tensor4 option \<Rightarrow> py_error + tensor4 \<times> tensor4" where
  "scaled_dot_product_attention q k v msk =
     bind_err (batch_matmul_nt q k) (\<lambda>matmul_qk.
     bind_err
       (case msk of
          None \<Rightarrow> Inr (map (map (map (map (\<lambda>x. x / sqrt (real (last_len k)))))) matmul_qk)
        | Some m \<Rightarrow>
            tf_add4 (map (map (map (map (\<lambda>x. x / sqrt (real (last_len k)))))) matmul_qk)
              (map (map (map (map (\<lambda>x. x * - (10 ^ 9))))) m))
       (\<lambda>scaled_attention_logits.
     bind_err (batch_matmul (map (map (map softmax)) scaled_attention_logits) v) (\<lambda>output.
     Inr (output, map (map (map softmax)) scaled_attention_logits))))"

text \<open>
  \<^verbatim>\<open>
  class MultiHeadAttention(tf.keras.layers.Layer):
      def __init__(self, d_model, num_heads):
          self.num_heads = num_heads
          self.d_model = d_model
          assert d_model % self.num_heads == 0
          self.depth = d_model // self.num_heads
          self.wq = Dense(d_model, use_bias=False); self.wk = ...; self.wv = ...
          self.ff = Dense(d_model, use_bias=False)
      def split_heads(self, x, batch_size):
          x = tf.reshape(x, (batch_size, -1, self.num_heads, self.depth))
          return tf.transpose(x, perm=[0, 2, 1, 3])
      def call(self, q, k, v, mask):
          batch_size = tf.shape(q)[0]
          q = self.wq(q); k = self.wk(k); v = self.wv(v)
          q = self.split_heads(q, batch_size)
          k = self.split_heads(k, batch_size)
          v = self.split_heads(v, batch_size)
          scaled_attention, attention_weights = scaled_dot_product_attention(q, k, v, mask)
          scaled_attention = tf.transpose(scaled_attention, perm=[0, 2, 1, 3])
          concat_attention = tf.reshape(scaled_attention, (batch_size, -1, self.d_model))
          output = self.ff(concat_attention)
          return output, attention_weights
  \<close>
\<close>

record MultiHeadAttention =
  num_heads :: nat
  d_model :: nat
  depth :: nat
  wq :: mat
  wk :: mat
  wv :: mat
  ff :: mat

definition split_heads :: "MultiHeadAttention \<Rightarrow> tensor3 \<Rightarrow> nat \<Rightarrow> py_error + tensor4" where
  "split_heads self x batch_size =
     bind_err (reshape_heads batch_size (num_heads self) (depth self) x) (\<lambda>x'.
     Inr (transpose_0213 (num_heads self) x'))"

definition MultiHeadAttention_call ::
  "MultiHeadAttention \<Rightarrow> tensor3 \<Rightarrow> tensor3 \<Rightarrow> tensor3 \<Rightarrow> tensor4 option
    \<Rightarrow> py_error + tensor3 \<times> tensor4" where
  "MultiHeadAttention_call self q k v msk =
     bind_err (dense (wq self) q) (\<lambda>q1.
     bind_err (dense (wk self) k) (\<lambda>k1.
     bind_err (dense (wv self) v) (\<lambda>v1.
     bind_err (split_heads self q1 (length q)) (\<lambda>q2.
     bind_err (split_heads self k1 (length q)) (\<lambda>k2.
     bind_err (split_heads self v1 (length q)) (\<lambda>v2.
     bind_err (scaled_dot_product_attention q2 k2 v2 msk)
       (\<lambda>(scaled_attention, attention_weights).
     bind_err (reshape_concat (length q) (d_model self)
                 (transpose_0213 (axis2_len scaled_attention) scaled_attention))
       (\<lambda>concat_attention.
     bind_err (dense (ff self) concat_attention) (\<lambda>output.
     Inr (output, attention_weights))))))))))"

text \<open>
  \<^verbatim>\<open>
  class PointwiseFeedforward(tf.keras.layers.Layer):
      def call(self, x):
          x = self.ff1(x)
          x = tf.nn.leaky_relu(x)
          x = self.ff2(x)
          return x
  class TransformerLayer(tf.keras.layers.Layer):
      def call(self, x, y, mask):
          attn_output, _ = self.mha(x, y, y, mask)
          out1 = self.layernorm1(x + attn_output)
          ffn_output = self.ffn(out1)
          out2 = self.layernorm2(out1 + ffn_output)
          return out2
  class PoolingMultiheadAttention(tf.keras.layers.Layer):
      def __init__(self, d_model, num_seed_vectors, num_heads):
          self.mab = TransformerLayer(d_model, num_heads)
          self.seed_vectors = tf.Variable(tf.random.normal([1, num_seed_vectors, d_model]))
      def call(self, x, mask):
          b = tf.shape(x)[0]
          s = self.seed_vectors
          s = tf.tile(s, [b, 1, 1])  # shape [b, k, d]
          return self.mab(s, x, mask)
  \<close>
\<close>

record PointwiseFeedforward =
  ff1_kernel :: mat
  ff1_bias :: vec
  ff2_kernel :: mat
  ff2_bias :: vec

definition PointwiseFeedforward_call :: "PointwiseFeedforward \<Rightarrow> tensor3 \<Rightarrow> py_error + tensor3" where
  "PointwiseFeedforward_call self x =
     bind_err (dense_bias (ff1_kernel self) (ff1_bias self) x) (\<lambda>x1.
     dense_bias (ff2_kernel self) (ff2_bias self) (map (map (map leaky_relu)) x1))"

record TransformerLayer =
  mha :: MultiHeadAttention
  ffn :: PointwiseFeedforward
  layernorm1_gamma :: vec
  layernorm1_beta :: vec
  layernorm2_gamma :: vec
  layernorm2_beta :: vec

definition TransformerLayer_call ::
  "TransformerLayer \<Rightarrow> tensor3 \<Rightarrow> tensor3 \<Rightarrow> tensor4 option \<Rightarrow> py_error + tensor3" where
  "TransformerLayer_call self x y msk =
     bind_err (MultiHeadAttention_call (mha self) x y y msk) (\<lambda>(attn_output, weights).
     bind_err (tf_add3 x attn_output) (\<lambda>sum1.
     bind_err (layer_norm (layernorm1_gamma self) (layernorm1_beta self) sum1) (\<lambda>out1.
     bind_err (PointwiseFeedforward_call (ffn self) out1) (\<lambda>ffn_output.
     bind_err (tf_add3 out1 ffn_output) (\<lambda>sum2.
     layer_norm (layernorm2_gamma self) (layernorm2_beta self) sum2)))))"

record PoolingMultiheadAttention =
  mab :: TransformerLayer
  seed_vectors :: tensor3

text \<open>\<^verbatim>\<open>tf.tile(s, [b, 1, 1])\<close>.\<close>

definition tf_tile0 :: "nat \<Rightarrow> tensor3 \<Rightarrow> tensor3" where
  "tf_tile0 b s = concat (replicate b s)"

definition PoolingMultiheadAttention_call ::
  "PoolingMultiheadAttention \<Rightarrow> tensor3 \<Rightarrow> tensor4 option \<Rightarrow> py_error + tensor3" where
  "PoolingMultiheadAttention_call self x msk =
     TransformerLayer_call (mab self) (tf_tile0 (length x) (seed_vectors self)) x msk"

text \<open>
  Shapes. A layer that \<^verbatim>\<open>__init__\<close> has built for \<open>d_model\<close>, \<open>num_heads\<close> and
  \<open>num_seed_vectors\<close>, and that has been called on inputs whose last axis has length
  \<open>d_model\<close>, has kernels of \<open>d_model\<close> columns of length \<open>d_model\<close>, and biases, \<open>gamma\<close> and
  \<open>beta\<close> of length \<open>d_model\<close>.
\<close>

definition has_shape2 :: "nat \<Rightarrow> nat \<Rightarrow> 'a list list \<Rightarrow> bool" where
  "has_shape2 n d m = (length m = n \<and> list_all (\<lambda>r. length r = d) m)"

definition has_shape3 :: "nat \<Rightarrow> nat \<Rightarrow> nat \<Rightarrow> 'a list list list \<Rightarrow> bool" where
  "has_shape3 b n d x = (length x = b \<and> list_all (has_shape2 n d) x)"

definition has_shape4 :: "nat \<Rightarrow> nat \<Rightarrow> nat \<Rightarrow> nat \<Rightarrow> 'a list list list list \<Rightarrow> bool" where
  "has_shape4 b h n d x = (length x = b \<and> list_all (has_shape3 h n d) x)"

definition built :: "nat \<Rightarrow> nat \<Rightarrow> nat \<Rightarrow> PoolingMultiheadAttention \<Rightarrow> bool" where
  "built d h k self =
     (0 < h \<and> 0 < d \<and> d mod h = 0
      \<and> num_heads (mha (mab self)) = h \<and> d_model (mha (mab self)) = d
      \<and> depth (mha (mab self)) = d div h
      \<and> has_shape2 d d (wq (mha (mab self))) \<and> has_shape2 d d (wk (mha (mab self)))
      \<and> has_shape2 d d (wv (mha (mab self))) \<and> has_shape2 d d (ff (mha (mab self)))
      \<and> has_shape2 d d (ff1_kernel (ffn (mab self))) \<and> length (ff1_bias (ffn (mab self))) = d
      \<and> has_shape2 d d (ff2_kernel (ffn (mab self))) \<and> length (ff2_bias (ffn (mab self))) = d
      \<and> length (layernorm1_gamma (mab self)) = d \<and> length (layernorm1_beta (mab self)) = d
      \<and> length (layernorm2_gamma (mab self)) = d \<and> length (layernorm2_beta (mab self)) = d
      \<and> has_shape3 1 k d (seed_vectors self))"

text \<open>The docstring's condition on the mask: its shape can be broadcast to
  \<open>(batch, num_heads, seq_len_q, seq_len_k)\<close>, so each axis has that length or length one.\<close>

definition mask_broadcastable :: "nat \<Rightarrow> nat \<Rightarrow> nat \<Rightarrow> nat \<Rightarrow> tensor4 option \<Rightarrow> bool" where
  "mask_broadcastable b h q n msk =
     (case msk of
        None \<Rightarrow> True
      | Some m \<Rightarrow>
          (\<exists>b'\<in>{b, 1}. \<exists>h'\<in>{h, 1}. \<exists>q'\<in>{q, 1}. \<exists>n'\<in>{n, 1}. has_shape4 b' h' q' n' m))"

text \<open>The rows of every matrix of a tensor in the order of a permutation of the positions,
  and the same on the last axis of a mask (an axis of length one has only one order).\<close>

definition permute_rows :: "(nat \<Rightarrow> nat) \<Rightarrow> 'a list \<Rightarrow> 'a list" where
  "permute_rows p xs = map (\<lambda>i. xs ! p i) [0..<length xs]"

definition permute_set :: "(nat \<Rightarrow> nat) \<Rightarrow> tensor3 \<Rightarrow> tensor3" where
  "permute_set p x = map (permute_rows p) x"

definition permute_keys :: "(nat \<Rightarrow> nat) \<Rightarrow> tensor4 option \<Rightarrow> tensor4 option" where
  "permute_keys p msk =
     map_option (map (map (map (\<lambda>r. if length r = 1 then r else permute_rows p r)))) msk"

text \<open>A small function table, argument sizes and function lookup for the examples.\<close>

definition example_FUNCTIONS :: "pysc2_function list" where
  "example_FUNCTIONS =
     [\<lparr>fn_id = 0, general_id = 0, args = []\<rparr>,
      \<lparr>fn_id = 1, general_id = 0, args = [0]\<rparr>,
      \<lparr>fn_id = 4, general_id = 0, args = [4, 5]\<rparr>,
      \<lparr>fn_id = 12, general_id = 0, args = [3, 0]\<rparr>,
      \<lparr>fn_id = 13, general_id = 12, args = [3, 0]\<rparr>]"

definition example_arg_sizes :: "(int \<times> nat list) list" where
  "example_arg_sizes = [(0, [84, 84]), (3, [2])]"

definition example_functions :: "int \<Rightarrow> py_error + pysc2_function" where
  "example_functions i =
     (case find (\<lambda>f. fn_id f = i) example_FUNCTIONS of
        None \<Rightarrow> Inl KeyError
      | Some f \<Rightarrow> Inr f)"


text \<open>A timestep with three units on the screen, for the examples.\<close>

definition example_timestep :: sc_timestep where
  "example_timestep =
     \<lparr>ts_reward = 0, ts_last = False,
      ts_observation =
        \<lparr>available_actions = [0, 1, 4],
         feature_screen =
           [(''visibility_map'', [[1]]), (''height_map'', [[2]]), (''creep'', [[0]]),
            (''buildable'', [[1]]), (''pathable'', [[1]]), (''effects'', [[0]])],
         feature_minimap =
           [(''visibility_map'', [[1]]), (''height_map'', [[2]]), (''player_relative'', [[3]]),
            (''creep'', [[0]]), (''buildable'', [[1]]), (''pathable'', [[1]]),
            (''camera'', [[1]])],
         player = [1, 50, 0],
         feature_units = [[48, 10, 20], [21, 11, 22], [48, 0, 1]]\<rparr>\<rparr>"

text \<open>A pooling layer for the examples: \<open>d_model = 2\<close>, one head, one seed vector, identity
  kernels.\<close>

definition example_pma :: PoolingMultiheadAttention where
  "example_pma =
     \<lparr>mab =
        \<lparr>mha = \<lparr>num_heads = 1, d_model = 2, depth = 2,
                 wq = [[1, 0], [0, 1]], wk = [[1, 0], [0, 1]], wv = [[1, 0], [0, 1]],
                 ff = [[1, 0], [0, 1]]\<rparr>,
         ffn = \<lparr>ff1_kernel = [[1, 0], [0, 1]], ff1_bias = [0, 0],
                 ff2_kernel = [[1, 0], [0, 1]], ff2_bias = [0, 0]\<rparr>,
         layernorm1_gamma = [1, 1], layernorm1_beta = [0, 0],
         layernorm2_gamma = [1, 1], layernorm2_beta = [0, 0]\<rparr>,
      seed_vectors = [[[1, 0]]]\<rparr>"

section \<open>Theorems\<close>

subsection \<open>TimeLimit\<close>

lemma TimeLimit_steps_counter:
  "never_raises env_step \<Longrightarrow> tl_step self = Some c \<Longrightarrow> c + int (length as) < tl_duration self \<Longrightarrow>
   tl_step (snd (TimeLimit_steps env_step as self)) = Some (c + int (length as))
   \<and> tl_duration (snd (TimeLimit_steps env_step as self)) = tl_duration self"
proof (induction as arbitrary: self c)
  case Nil
  then show ?case by simp
next
  case (Cons a as)
  obtain r e' where r: "env_step a (tl_env self) = (Inr r, e')"
    using Cons.prems(1) unfolding never_raises_def by blast
  obtain obs reward dn info where rr: "r = (obs, reward, dn, info)" by (cases r) auto
  let ?s = "self\<lparr>tl_env := e', tl_step := Some (c + 1)\<rparr>"
  have st: "TimeLimit_step env_step a self = (Inr (obs, reward, dn, info), ?s)"
    using Cons.prems r rr by (simp add: TimeLimit_step_def)
  have "tl_step (snd (TimeLimit_steps env_step as ?s)) = Some (c + 1 + int (length as))
     \<and> tl_duration (snd (TimeLimit_steps env_step as ?s)) = tl_duration ?s"
    by (rule Cons.IH) (use Cons.prems in auto)
  then show ?case using st by (simp add: case_prod_beta add.assoc)
qed

lemma TimeLimit_step_limit:
  assumes "tl_step self = Some c" "env_step action (tl_env self) = (Inr (obs, reward, dn, info), env')"
    "c + 1 \<ge> tl_duration self"
  shows "TimeLimit_step env_step action self =
     (Inr (obs, reward, PBool True,
        if ''discount'' \<in> fst ` set info then info else info @ [(''discount'', PFloat (Fin 1))]),
      self\<lparr>tl_env := env', tl_step := None\<rparr>)"
proof -
  have "map_of info ''discount'' = None \<longleftrightarrow> ''discount'' \<notin> fst ` set info"
    by (simp add: map_of_eq_None_iff)
  moreover have "''discount'' \<notin> fst ` set info \<Longrightarrow>
      AList.update ''discount'' (PFloat (Fin 1)) info = info @ [(''discount'', PFloat (Fin 1))]"
    by (induction info) auto
  ultimately show ?thesis using assms by (auto simp: TimeLimit_step_def)
qed

text \<open>
  C8. \<^verbatim>\<open>TimeLimit\<close> starts with no counter. A \<^verbatim>\<open>step\<close> with no counter (before any
  \<^verbatim>\<open>reset\<close>, or after the step that reached the limit) fails its assertion and leaves the
  wrapper and the wrapped environment as they were. \<^verbatim>\<open>reset\<close> sets the counter to 0.
  Otherwise, when the wrapped step returns, the counter goes up by one; below the duration
  the wrapped result is returned as it is; when the counter reaches the duration the result
  has \<^verbatim>\<open>done = True\<close>, \<^verbatim>\<open>info['discount'] = 1.0\<close> is added only when \<^verbatim>\<open>info\<close> has no
  such key, the counter is cleared and the next step fails its assertion. Over an episode
  whose wrapped environment never raises, the step number \<^verbatim>\<open>duration\<close> after a reset is
  the one that forces \<^verbatim>\<open>done\<close>: the counter is below the duration on every step before.
\<close>

theorem TimeLimit_reset_step_limit:
  "tl_step (TimeLimit_init env duration) = None
   \<and> (tl_step self = None \<longrightarrow>
        TimeLimit_step env_step action self = (Inl AssertionError, self))
   \<and> tl_step (snd (TimeLimit_reset env_reset self)) = Some 0
   \<and> (tl_step self = Some c
        \<and> env_step action (tl_env self) = (Inr (obs, reward, dn, info), env') \<longrightarrow>
        (c + 1 < tl_duration self \<longrightarrow>
           TimeLimit_step env_step action self =
             (Inr (obs, reward, dn, info), self\<lparr>tl_env := env', tl_step := Some (c + 1)\<rparr>))
        \<and> (c + 1 \<ge> tl_duration self \<longrightarrow>
           TimeLimit_step env_step action self =
             (Inr (obs, reward, PBool True,
                   if ''discount'' \<in> fst ` set info then info
                   else info @ [(''discount'', PFloat (Fin 1))]),
              self\<lparr>tl_env := env', tl_step := None\<rparr>)
           \<and> fst (TimeLimit_step env_step action'
                  (snd (TimeLimit_step env_step action self))) = Inl AssertionError))
   \<and> (never_raises env_step \<and> tl_step self = Some 0
        \<and> int (length as) + 1 = tl_duration self \<longrightarrow>
        tl_step (snd (TimeLimit_steps env_step as self)) = Some (int (length as))
        \<and> (\<exists>ob rw inf. fst (TimeLimit_step env_step action
                (snd (TimeLimit_steps env_step as self))) = Inr (ob, rw, PBool True, inf))
        \<and> tl_step (snd (TimeLimit_step env_step action
                (snd (TimeLimit_steps env_step as self)))) = None)"
proof (intro conjI impI)
  show "tl_step (TimeLimit_init env duration) = None"
    by (simp add: TimeLimit_init_def)
  show "TimeLimit_step env_step action self = (Inl AssertionError, self)" if "tl_step self = None"
    using that by (simp add: TimeLimit_step_def)
  show "tl_step (snd (TimeLimit_reset env_reset self)) = Some 0"
    by (simp add: TimeLimit_reset_def case_prod_beta)
next
  assume h: "tl_step self = Some c \<and> env_step action (tl_env self) = (Inr (obs, reward, dn, info), env')"
  show "TimeLimit_step env_step action self =
      (Inr (obs, reward, dn, info), self\<lparr>tl_env := env', tl_step := Some (c + 1)\<rparr>)"
    if "c + 1 < tl_duration self"
    using h that by (simp add: TimeLimit_step_def)
  assume lim: "tl_duration self \<le> c + 1"
  show st: "TimeLimit_step env_step action self =
      (Inr (obs, reward, PBool True,
            if ''discount'' \<in> fst ` set info then info else info @ [(''discount'', PFloat (Fin 1))]),
       self\<lparr>tl_env := env', tl_step := None\<rparr>)"
    using h lim by (intro TimeLimit_step_limit) auto
  show "fst (TimeLimit_step env_step action' (snd (TimeLimit_step env_step action self)))
      = Inl AssertionError"
    by (simp add: st) (simp add: TimeLimit_step_def)
next
  assume h: "never_raises env_step \<and> tl_step self = Some 0 \<and> int (length as) + 1 = tl_duration self"
  let ?s = "snd (TimeLimit_steps env_step as self)"
  have cnt: "tl_step ?s = Some (0 + int (length as)) \<and> tl_duration ?s = tl_duration self"
    by (rule TimeLimit_steps_counter) (use h in auto)
  then show "tl_step ?s = Some (int (length as))" by simp
  obtain r e' where r: "env_step action (tl_env ?s) = (Inr r, e')"
    using h unfolding never_raises_def by blast
  obtain ob rw dn' inf where rr: "r = (ob, rw, dn', inf)" by (cases r) auto
  have st: "TimeLimit_step env_step action ?s =
     (Inr (ob, rw, PBool True,
        if ''discount'' \<in> fst ` set inf then inf else inf @ [(''discount'', PFloat (Fin 1))]),
      ?s\<lparr>tl_env := e', tl_step := None\<rparr>)"
    by (rule TimeLimit_step_limit) (use cnt r rr h in auto)
  show "\<exists>ob rw inf. fst (TimeLimit_step env_step action ?s) = Inr (ob, rw, PBool True, inf)"
    unfolding st by auto
  show "tl_step (snd (TimeLimit_step env_step action ?s)) = None"
    unfolding st by simp
qed

lemma never_raises_dummy_inner: "never_raises dummy_inner"
  by (simp add: never_raises_def dummy_inner_def)

theorem TimeLimit_reset_step_limit_witness:
  "tl_step \<lparr>tl_env = 0::nat, tl_duration = 2, tl_step = Some 0\<rparr> = Some (0::int)
   \<and> never_raises (dummy_inner :: nat \<Rightarrow> nat \<Rightarrow> (py_error + step_result) \<times> nat)
   \<and> int (length [7::nat]) + 1 = tl_duration \<lparr>tl_env = 0::nat, tl_duration = 2, tl_step = Some 0\<rparr>
   \<and> tl_step \<lparr>tl_env = 0::nat, tl_duration = 2, tl_step = None\<rparr> = None
   \<and> TimeLimit_step dummy_inner (7::nat) \<lparr>tl_env = 0::nat, tl_duration = 2, tl_step = None\<rparr> =
       (Inl AssertionError, \<lparr>tl_env = 0::nat, tl_duration = 2, tl_step = None\<rparr>)
   \<and> TimeLimit_step dummy_inner (7::nat) \<lparr>tl_env = 0::nat, tl_duration = 2, tl_step = Some 0\<rparr> =
       (Inr (PDict [], PFloat (Fin 0), PBool False, []), \<lparr>tl_env = 1, tl_duration = 2, tl_step = Some 1\<rparr>)
   \<and> TimeLimit_step dummy_inner (7::nat) \<lparr>tl_env = 1::nat, tl_duration = 2, tl_step = Some 1\<rparr> =
       (Inr (PDict [], PFloat (Fin 0), PBool True, [(''discount'', PFloat (Fin 1))]),
        \<lparr>tl_env = 2, tl_duration = 2, tl_step = None\<rparr>)
   \<and> tl_step (snd (TimeLimit_step dummy_inner (7::nat)
         (snd (TimeLimit_steps dummy_inner [7::nat] \<lparr>tl_env = 0::nat, tl_duration = 2, tl_step = Some 0\<rparr>)))) = None"
  using never_raises_dummy_inner
    TimeLimit_reset_step_limit [of "0::nat" 2 "\<lparr>tl_env = 0::nat, tl_duration = 2, tl_step = None\<rparr>"
      dummy_inner "7::nat" "\<lambda>e. (Inr (PDict []), e)" 0 "PDict []" "PFloat (Fin 0)" "PBool False" "[]" 1 7 "[7]"]
    TimeLimit_reset_step_limit [of "0::nat" 2 "\<lparr>tl_env = 0::nat, tl_duration = 2, tl_step = Some 0\<rparr>"
      dummy_inner "7::nat" "\<lambda>e. (Inr (PDict []), e)" 0 "PDict []" "PFloat (Fin 0)" "PBool False" "[]" 1 7 "[7]"]
    TimeLimit_reset_step_limit [of "0::nat" 2 "\<lparr>tl_env = 1::nat, tl_duration = 2, tl_step = Some 1\<rparr>"
      dummy_inner "7::nat" "\<lambda>e. (Inr (PDict []), e)" 1 "PDict []" "PFloat (Fin 0)" "PBool False" "[]" 2 7 "[7]"]
  by (simp add: dummy_inner_def)

subsection \<open>OneHotAction\<close>

lemma argmax_from_spec:
  assumes "i = length ys" "best < length ys" "bv = ys ! best"
    "\<forall>j<length ys. ys ! j \<le> bv" "\<forall>j<best. ys ! j < bv"
  shows "argmax_from best bv i xs < length (ys @ xs)
    \<and> (\<forall>j<length (ys @ xs). (ys @ xs) ! j \<le> (ys @ xs) ! argmax_from best bv i xs)
    \<and> (\<forall>j<argmax_from best bv i xs. (ys @ xs) ! j < (ys @ xs) ! argmax_from best bv i xs)"
  using assms
proof (induction xs arbitrary: ys best bv i)
  case Nil
  then show ?case by simp
next
  case (Cons x xs)
  show ?case
  proof (cases "bv < x")
    case True
    have "argmax_from i x (Suc i) xs < length ((ys @ [x]) @ xs)
      \<and> (\<forall>j<length ((ys @ [x]) @ xs). ((ys @ [x]) @ xs) ! j \<le> ((ys @ [x]) @ xs) ! argmax_from i x (Suc i) xs)
      \<and> (\<forall>j<argmax_from i x (Suc i) xs. ((ys @ [x]) @ xs) ! j < ((ys @ [x]) @ xs) ! argmax_from i x (Suc i) xs)"
    proof (rule Cons.IH)
      show "Suc i = length (ys @ [x])" using Cons.prems by simp
      show "i < length (ys @ [x])" using Cons.prems by simp
      show "x = (ys @ [x]) ! i" using Cons.prems by simp
      have below: "ys ! j < x" if "j < length ys" for j
      proof -
        have "ys ! j \<le> bv" using Cons.prems(4) that by blast
        then show ?thesis using True by simp
      qed
      show "\<forall>j<length (ys @ [x]). (ys @ [x]) ! j \<le> x"
        using below by (auto simp: nth_append less_Suc_eq intro: less_imp_le)
      show "\<forall>j<i. (ys @ [x]) ! j < x"
        using below Cons.prems(1) by (auto simp: nth_append)
    qed
    then show ?thesis using True by simp
  next
    case False
    have "argmax_from best bv (Suc i) xs < length ((ys @ [x]) @ xs)
      \<and> (\<forall>j<length ((ys @ [x]) @ xs). ((ys @ [x]) @ xs) ! j \<le> ((ys @ [x]) @ xs) ! argmax_from best bv (Suc i) xs)
      \<and> (\<forall>j<argmax_from best bv (Suc i) xs. ((ys @ [x]) @ xs) ! j < ((ys @ [x]) @ xs) ! argmax_from best bv (Suc i) xs)"
    proof (rule Cons.IH)
      show "Suc i = length (ys @ [x])" using Cons.prems by simp
      show "best < length (ys @ [x])" using Cons.prems by simp
      show "bv = (ys @ [x]) ! best" using Cons.prems by (simp add: nth_append)
      show "\<forall>j<length (ys @ [x]). (ys @ [x]) ! j \<le> bv"
        using Cons.prems False by (auto simp: nth_append less_Suc_eq)
      show "\<forall>j<best. (ys @ [x]) ! j < bv"
        using Cons.prems by (auto simp: nth_append)
    qed
    then show ?thesis using False by simp
  qed
qed

lemma np_argmax_spec:
  assumes "v \<noteq> []"
  shows "\<exists>m. np_argmax v = Inr m \<and> m < length v \<and> (\<forall>j<length v. v ! j \<le> v ! m)
    \<and> (\<forall>j<m. v ! j < v ! m)"
proof -
  obtain x xs where v: "v = x # xs" using assms by (cases v) auto
  have "argmax_from 0 x 1 xs < length ([x] @ xs)
    \<and> (\<forall>j<length ([x] @ xs). ([x] @ xs) ! j \<le> ([x] @ xs) ! argmax_from 0 x 1 xs)
    \<and> (\<forall>j<argmax_from 0 x 1 xs. ([x] @ xs) ! j < ([x] @ xs) ! argmax_from 0 x 1 xs)"
    by (rule argmax_from_spec) auto
  then show ?thesis unfolding v by simp
qed

lemma tolerance_nonneg: "0 \<le> (1 / 10 ^ 8 + 1 / 10 ^ 5 * \<bar>y :: real\<bar>) * (1 - 1 / 2 ^ 21)"
  by simp

lemma tolerance_mono:
  "(1 / 10 ^ 8 + 1 / 10 ^ 5 * \<bar>y :: real\<bar>) * (1 - 1 / 2 ^ 21)
    \<le> (1 / 10 ^ 8 + 1 / 10 ^ 5 * \<bar>y\<bar>) * (1 + 1 / 2 ^ 21)"
  by (rule mult_left_mono) simp_all

lemma np_allclose_reference_within:
  assumes "m < length v"
    and "\<forall>i<length v. \<bar>(if i = m then 1 else 0) - v ! i\<bar>
          \<le> (1 / 10 ^ 8 + 1 / 10 ^ 5 * \<bar>v ! i\<bar>) * (1 - 1 / 2 ^ 21)"
  shows "np_allclose rounding ((replicate (length v) 0)[m := 1]) v"
proof -
  have "list_all2 (within_tolerance (1 - 1 / 2 ^ 21)) ((replicate (length v) 0)[m := 1]) v"
    unfolding list_all2_conv_all_nth within_tolerance_def
    using assms by (auto simp: nth_list_update)
  then show ?thesis by (simp add: np_allclose_def)
qed

lemma np_allclose_reference_outside:
  assumes "m < length v" and "i < length v"
    and "(1 / 10 ^ 8 + 1 / 10 ^ 5 * \<bar>v ! i\<bar>) * (1 + 1 / 2 ^ 21)
          < \<bar>(if i = m then 1 else 0) - v ! i\<bar>"
  shows "\<not> np_allclose rounding ((replicate (length v) 0)[m := 1]) v"
proof -
  let ?ref = "(replicate (length v) 0)[m := 1]"
  have r: "?ref ! i = (if i = m then 1 else 0)"
    using assms(1,2) by (simp add: nth_list_update)
  have out: "\<not> within_tolerance (1 + 1 / 2 ^ 21) (?ref ! i) (v ! i)"
    unfolding r within_tolerance_def using assms(3) by simp
  have "\<not> within_tolerance (1 - 1 / 2 ^ 21) (?ref ! i) (v ! i)"
    unfolding r within_tolerance_def using assms(3) tolerance_mono [of "v ! i"] by simp
  then have a: "\<not> list_all2 (within_tolerance (1 - 1 / 2 ^ 21)) ?ref v"
    using assms(2) by (auto simp: list_all2_conv_all_nth)
  have b: "\<not> list_all2 (within_tolerance (1 + 1 / 2 ^ 21)) ?ref v"
    using out assms(2) by (auto simp: list_all2_conv_all_nth)
  show ?thesis using a b by (simp add: np_allclose_def)
qed

lemma one_hot_index_spec:
  assumes "np_argmax v = Inr m"
  shows "one_hot_index rounding v =
    Inr (if np_allclose rounding ((replicate (length v) 0)[m := 1]) v then int m else - 1)"
  using assms by (simp add: one_hot_index_def Let_def)

lemma filter_single_unique:
  assumes "length (filter P v) = 1" "i < length v" "j < length v" "P (v ! i)" "P (v ! j)"
  shows "i = j"
  using assms
proof (induction v arbitrary: i j)
  case Nil
  then show ?case by simp
next
  case (Cons x xs)
  have none: "\<not> P (xs ! n)" if "filter P xs = []" "n < length xs" for n
    using that by (metis filter_empty_conv nth_mem)
  show ?case
  proof (cases "P x")
    case True
    then have e: "filter P xs = []" using Cons.prems(1) by simp
    show ?thesis
    proof (cases i)
      case 0
      then show ?thesis using Cons.prems none [OF e] by (cases j) auto
    next
      case (Suc n)
      then show ?thesis using Cons.prems none [OF e] by auto
    qed
  next
    case False
    then have l: "length (filter P xs) = 1" using Cons.prems(1) by simp
    obtain i' where i: "i = Suc i'" using Cons.prems False by (cases i) auto
    obtain j' where j: "j = Suc j'" using Cons.prems False by (cases j) auto
    have "i' = j'" by (rule Cons.IH [OF l]) (use Cons.prems i j in auto)
    then show ?thesis using i j by simp
  qed
qed

lemma exactly_one_hot_within:
  assumes "exactly_one_hot v" "m < length v" "\<forall>j<length v. v ! j \<le> v ! m"
  shows "v ! m = 1 \<and> (\<forall>i<length v. \<bar>(if i = m then 1 else 0) - v ! i\<bar>
          \<le> (1 / 10 ^ 8 + 1 / 10 ^ 5 * \<bar>v ! i\<bar>) * (1 - 1 / 2 ^ 21))"
proof -
  have vals: "v ! i = 0 \<or> v ! i = 1" if "i < length v" for i
    using assms(1) that by (auto simp: exactly_one_hot_def list_all_length)
  have one: "length (filter (\<lambda>x. x = 1) v) = 1"
    using assms(1) by (simp add: exactly_one_hot_def)
  then obtain x where "x \<in> set (filter (\<lambda>x. x = 1) v)"
    by (cases "filter (\<lambda>x. x = 1) v") auto
  then obtain h where h: "h < length v" "v ! h = 1"
    by (auto simp: in_set_conv_nth)
  have "v ! h \<le> v ! m" using assms(3) h by blast
  then have m1: "v ! m = 1" using vals [OF assms(2)] h by auto
  have zero: "v ! i = 0" if "i < length v" "i \<noteq> m" for i
  proof -
    have "v ! i \<noteq> 1"
      using filter_single_unique [OF one that(1) assms(2)] m1 that(2) by auto
    then show ?thesis using vals [OF that(1)] by simp
  qed
  have "\<bar>(if i = m then 1 else 0) - v ! i\<bar>
          \<le> (1 / 10 ^ 8 + 1 / 10 ^ 5 * \<bar>v ! i\<bar>) * (1 - 1 / 2 ^ 21)" if "i < length v" for i
  proof (cases "i = m")
    case True
    then show ?thesis using m1 tolerance_nonneg [of 1] by simp
  next
    case False
    then show ?thesis using zero [OF that] by simp
  qed
  then show ?thesis using m1 by blast
qed

lemma OneHotAction_indices_lookup:
  assumes "OneHotAction_indices rounding ks action acc = Inr fwd"
  shows "(k \<notin> set ks \<longrightarrow> map_of fwd k = map_of acc k)
    \<and> (k \<in> set ks \<longrightarrow> (\<exists>v i. map_of action k = Some v \<and> one_hot_index rounding v = Inr i
          \<and> map_of fwd k = Some i))"
  using assms
proof (induction ks arbitrary: acc)
  case Nil
  then show ?case by simp
next
  case (Cons a ks)
  from Cons.prems obtain v i where a: "map_of action a = Some v" "one_hot_index rounding v = Inr i"
    and rest: "OneHotAction_indices rounding ks action (AList.update a i acc) = Inr fwd"
    by (auto split: option.splits sum.splits)
  from Cons.IH [OF rest] a show ?case
    by (auto simp: update_conv')
qed

lemma OneHotAction_indices_total:
  assumes "\<forall>k\<in>set ks. \<exists>v. map_of action k = Some v \<and> v \<noteq> []"
  shows "\<exists>fwd. OneHotAction_indices rounding ks action acc = Inr fwd"
  using assms
proof (induction ks arbitrary: acc)
  case Nil
  then show ?case by simp
next
  case (Cons a ks)
  then obtain v where v: "map_of action a = Some v" "v \<noteq> []" by auto
  obtain m where m: "np_argmax v = Inr m" "m < length v"
    using np_argmax_spec [OF v(2)] by blast
  obtain i where i: "one_hot_index rounding v = Inr i"
    using one_hot_index_spec [OF m(1)] by blast
  show ?case using Cons v i by simp
qed

text \<open>
  C9, as amended. When every key of the wrapped action space has a non-empty vector in the
  action, \<^verbatim>\<open>OneHotAction.step\<close> raises nothing of its own and calls the wrapped step with
  one index per key. With \<open>m\<close> the first position of the largest entry of \<^verbatim>\<open>action[k]\<close>,
  the index under \<open>k\<close> is \<open>m\<close> or \<open>-1\<close>: it is \<open>m\<close> exactly when \<^verbatim>\<open>np.allclose\<close> holds of
  the one-hot vector at \<open>m\<close> and the vector. That is so whenever the vector is within the
  tolerance at every position \<open>i\<close>, \<open>|ref i - v i| \<le> (1e-8 + 1e-5 * |v i|) * (1 - 2^-21)\<close>,
  and it is not so whenever some position is outside,
  \<open>|ref i - v i| > (1e-8 + 1e-5 * |v i|) * (1 + 2^-21)\<close>; in the band between the two, which
  is the rounding error of numpy's comparison in float32 and in float64, the rounding
  decides. A vector that is exactly one-hot is within the tolerance, and its index is the
  position of its 1.
\<close>

theorem OneHotAction_step_forwards:
  assumes "\<forall>k\<in>set keys. \<exists>v. map_of action k = Some v \<and> v \<noteq> []"
    and "k \<in> set keys" and "map_of action k = Some v"
  shows "\<exists>fwd m. OneHotAction_indices rounding keys action [] = Inr fwd
    \<and> OneHotAction_step rounding env_step keys action env = env_step fwd env
    \<and> np_argmax v = Inr m \<and> m < length v
    \<and> (\<forall>j<length v. v ! j \<le> v ! m) \<and> (\<forall>j<m. v ! j < v ! m)
    \<and> (map_of fwd k = Some (int m) \<or> map_of fwd k = Some (- 1))
    \<and> (map_of fwd k = Some (int m)
          \<longleftrightarrow> np_allclose rounding ((replicate (length v) 0)[m := 1]) v)
    \<and> ((\<forall>i<length v. \<bar>(if i = m then 1 else 0) - v ! i\<bar>
            \<le> (1 / 10 ^ 8 + 1 / 10 ^ 5 * \<bar>v ! i\<bar>) * (1 - 1 / 2 ^ 21))
          \<longrightarrow> map_of fwd k = Some (int m))
    \<and> ((\<exists>i<length v. (1 / 10 ^ 8 + 1 / 10 ^ 5 * \<bar>v ! i\<bar>) * (1 + 1 / 2 ^ 21)
            < \<bar>(if i = m then 1 else 0) - v ! i\<bar>)
          \<longrightarrow> map_of fwd k = Some (- 1))
    \<and> (exactly_one_hot v \<longrightarrow> v ! m = 1 \<and> map_of fwd k = Some (int m))"
proof -
  obtain fwd where fwd: "OneHotAction_indices rounding keys action [] = Inr fwd"
    using OneHotAction_indices_total [OF assms(1)] by blast
  have ne: "v \<noteq> []" using assms by auto
  obtain m where m: "np_argmax v = Inr m" "m < length v" "\<forall>j<length v. v ! j \<le> v ! m"
    "\<forall>j<m. v ! j < v ! m"
    using np_argmax_spec [OF ne] by blast
  let ?close = "np_allclose rounding ((replicate (length v) 0)[m := 1]) v"
  obtain i where i: "one_hot_index rounding v = Inr i" "map_of fwd k = Some i"
    using OneHotAction_indices_lookup [OF fwd, of k] assms(2,3) by auto
  have st: "OneHotAction_step rounding env_step keys action env = env_step fwd env"
    by (simp add: OneHotAction_step_def fwd)
  have ix: "map_of fwd k = Some (if ?close then int m else - 1)"
    using i one_hot_index_spec [OF m(1), of rounding] by simp
  have either: "map_of fwd k = Some (int m) \<or> map_of fwd k = Some (- 1)"
    using ix by (cases ?close) simp_all
  have iff: "map_of fwd k = Some (int m) \<longleftrightarrow> ?close"
    using ix by (cases ?close) simp_all
  have within: "map_of fwd k = Some (int m)"
    if "\<forall>i<length v. \<bar>(if i = m then 1 else 0) - v ! i\<bar>
            \<le> (1 / 10 ^ 8 + 1 / 10 ^ 5 * \<bar>v ! i\<bar>) * (1 - 1 / 2 ^ 21)"
    using np_allclose_reference_within [OF m(2) that, of rounding] ix by simp
  have outside: "map_of fwd k = Some (- 1)"
    if "\<exists>i<length v. (1 / 10 ^ 8 + 1 / 10 ^ 5 * \<bar>v ! i\<bar>) * (1 + 1 / 2 ^ 21)
            < \<bar>(if i = m then 1 else 0) - v ! i\<bar>"
  proof -
    from that obtain i where "i < length v"
      "(1 / 10 ^ 8 + 1 / 10 ^ 5 * \<bar>v ! i\<bar>) * (1 + 1 / 2 ^ 21)
            < \<bar>(if i = m then 1 else 0) - v ! i\<bar>" by blast
    then have "\<not> ?close" by (rule np_allclose_reference_outside [OF m(2)])
    then show ?thesis using ix by simp
  qed
  have hot: "v ! m = 1 \<and> map_of fwd k = Some (int m)" if "exactly_one_hot v"
  proof -
    note w = exactly_one_hot_within [OF that m(2,3)]
    from w have "?close" using np_allclose_reference_within [OF m(2), of rounding] by blast
    then show ?thesis using w ix by simp
  qed
  show ?thesis using fwd st m either iff within outside hot by blast
qed

text \<open>
  C9 as stated fails: the vector \<open>[1 - 2^-20, 2^-30]\<close> (both entries are float32 values) is
  not a one-hot vector, and its index 0 is forwarded, not \<open>-1\<close>, whatever the rounding:
  the vector is well within the tolerance.
\<close>

theorem OneHotAction_near_one_hot:
  "(\<forall>rounding.
      OneHotAction_indices rounding [''action''] [(''action'', [1 - 1 / 2 ^ 20, 1 / 2 ^ 30])] []
        = Inr [(''action'', 0)])
   \<and> np_argmax [1 - 1 / 2 ^ 20, 1 / 2 ^ 30] = Inr 0
   \<and> \<not> exactly_one_hot [1 - 1 / 2 ^ 20, 1 / 2 ^ 30]"
  by (simp add: one_hot_index_def np_allclose_def within_tolerance_def exactly_one_hot_def)

theorem OneHotAction_step_forwards_witness:
  "(\<exists>v. map_of [(''action'', [0, 1, 0::real])] ''action'' = Some v \<and> v \<noteq> [])
   \<and> ''action'' \<in> set [''action'']
   \<and> exactly_one_hot [0, 1, 0]
   \<and> (\<exists>fwd. OneHotAction_indices (\<lambda>a b. False) [''action''] [(''action'', [0, 1, 0])] []
          = Inr fwd
        \<and> map_of fwd ''action'' = Some 1)
   \<and> np_argmax [0, 1, 0] = Inr 1"
  using OneHotAction_step_forwards [of "[''action'']" "[(''action'', [0, 1, 0])]" "''action''"
      "[0, 1, 0]" "\<lambda>a b. False" "\<lambda>a e. (Inl SimulatorError, e)" "()"]
  by (simp add: one_hot_index_def np_allclose_def within_tolerance_def exactly_one_hot_def)

subsection \<open>NormalizeAction\<close>











subsection \<open>Sc2: the action lookups\<close>

lemma update_new_key: "k \<notin> fst ` set al \<Longrightarrow> AList.update k v al = al @ [(k, v)]"
  by (induction al) auto

lemma get_action_lookup_loop_append:
  assumes "distinct (map fn_id fs)" "fn_id ` set fs \<inter> fst ` set lookup = {}"
  shows "get_action_lookup_loop blocked fs lookup index =
    lookup @ zip (map fn_id (filter (\<lambda>f. general_id f = 0 \<and> fn_id f \<notin> set blocked) fs))
               [index..<index + length (filter (\<lambda>f. general_id f = 0 \<and> fn_id f \<notin> set blocked) fs)]"
  using assms
proof (induction fs arbitrary: lookup index)
  case Nil
  then show ?case by simp
next
  case (Cons f fs)
  show ?case
  proof (cases "general_id f = 0 \<and> fn_id f \<notin> set blocked")
    case True
    have new: "fn_id f \<notin> fst ` set lookup" using Cons.prems(2) by auto
    have "get_action_lookup_loop blocked fs (lookup @ [(fn_id f, index)]) (Suc index) =
      (lookup @ [(fn_id f, index)]) @
        zip (map fn_id (filter (\<lambda>f. general_id f = 0 \<and> fn_id f \<notin> set blocked) fs))
          [Suc index..<Suc index + length (filter (\<lambda>f. general_id f = 0 \<and> fn_id f \<notin> set blocked) fs)]"
      by (rule Cons.IH) (use Cons.prems in auto)
    then show ?thesis using True new
      by (simp add: update_new_key upt_conv_Cons del: upt_Suc)
  next
    case False
    have "get_action_lookup_loop blocked fs lookup index =
      lookup @ zip (map fn_id (filter (\<lambda>f. general_id f = 0 \<and> fn_id f \<notin> set blocked) fs))
          [index..<index + length (filter (\<lambda>f. general_id f = 0 \<and> fn_id f \<notin> set blocked) fs)]"
      by (rule Cons.IH) (use Cons.prems in auto)
    then show ?thesis using False by auto
  qed
qed

lemma reversed_dict_foldl:
  assumes "length ks = length vs" "distinct vs" "set vs \<inter> fst ` set acc = {}"
  shows "foldl (\<lambda>acc (k, v). AList.update v k acc) acc (zip ks vs) = acc @ zip vs ks"
  using assms
proof (induction ks vs arbitrary: acc rule: list_induct2)
  case Nil
  then show ?case by simp
next
  case (Cons k ks v vs)
  have "foldl (\<lambda>acc (k, v). AList.update v k acc) (acc @ [(v, k)]) (zip ks vs)
      = (acc @ [(v, k)]) @ zip vs ks"
    by (rule Cons.IH) (use Cons.prems in auto)
  moreover have "v \<notin> fst ` set acc" using Cons.prems by auto
  ultimately show ?case by (simp add: update_new_key)
qed

lemma map_of_zip_index:
  assumes "distinct ks"
  shows "map_of (zip ks [0..<length ks]) k = Some i \<longleftrightarrow> i < length ks \<and> ks ! i = k"
proof
  assume "map_of (zip ks [0..<length ks]) k = Some i"
  then have "(k, i) \<in> set (zip ks [0..<length ks])" by (rule map_of_SomeD)
  then show "i < length ks \<and> ks ! i = k" by (auto simp: in_set_zip)
next
  assume "i < length ks \<and> ks ! i = k"
  then show "map_of (zip ks [0..<length ks]) k = Some i"
    using map_of_zip_nth [of ks "[0..<length ks]" i] assms by auto
qed

lemma map_of_index_zip:
  "map_of (zip [0..<length ks] ks) i = Some k \<longleftrightarrow> i < length ks \<and> ks ! i = k"
proof
  assume "map_of (zip [0..<length ks] ks) i = Some k"
  then have "(i, k) \<in> set (zip [0..<length ks] ks)" by (rule map_of_SomeD)
  then show "i < length ks \<and> ks ! i = k" by (auto simp: in_set_zip)
next
  assume "i < length ks \<and> ks ! i = k"
  then show "map_of (zip [0..<length ks] ks) i = Some k"
    using map_of_zip_nth [of "[0..<length ks]" ks i] by auto
qed

lemma arg_key_not_action_id: "arg_key a i \<noteq> ''action_id''"
  by (simp add: arg_key_def)

lemma action_space_args_action_id:
  "map_of (action_space_args arg_sizes todo acc) ''action_id'' = map_of acc ''action_id''"
proof (induction todo arbitrary: acc)
  case Nil
  then show ?case by simp
next
  case (Cons p todo)
  obtain arg_id sizes where p: "p = (arg_id, sizes)" by (cases p)
  have inner: "map_of (foldl (\<lambda>acc (i, size). AList.update (arg_key arg_id i) (Discrete size) acc)
      acc xs) ''action_id'' = map_of acc ''action_id''" for xs :: "(nat \<times> nat) list" and acc
    by (induction xs arbitrary: acc)
      (auto simp: update_conv' arg_key_not_action_id arg_key_not_action_id [symmetric]
        split: prod.splits)
  show ?case by (simp add: p Cons.IH inner)
qed

text \<open>
  C2. When the ids of the pysc2 function table are pairwise distinct,
  \<^verbatim>\<open>_get_action_lookup\<close> maps the ids of the functions with \<^verbatim>\<open>general_id == 0\<close> that are not
  blocked, in the order of the table, to the indices \<open>0, ..., N - 1\<close>, where \<open>N\<close> is their number;
  \<^verbatim>\<open>action_id_lookup\<close> maps the indices back to the ids, so an id has index \<open>i\<close> in one
  lookup exactly when \<open>i\<close> has that id in the other; and \<^verbatim>\<open>action_space\<close> has
  \<^verbatim>\<open>Discrete(N)\<close> under \<^verbatim>\<open>'action_id'\<close>.
\<close>

theorem get_action_lookup_bijection:
  assumes "distinct (map fn_id FUNCTIONS)"
  shows "get_action_lookup blocked FUNCTIONS =
      zip (map fn_id (filter (\<lambda>f. general_id f = 0 \<and> fn_id f \<notin> set blocked) FUNCTIONS))
          [0..<length (filter (\<lambda>f. general_id f = 0 \<and> fn_id f \<notin> set blocked) FUNCTIONS)]
    \<and> reversed_dict (get_action_lookup blocked FUNCTIONS) =
      zip [0..<length (filter (\<lambda>f. general_id f = 0 \<and> fn_id f \<notin> set blocked) FUNCTIONS)]
          (map fn_id (filter (\<lambda>f. general_id f = 0 \<and> fn_id f \<notin> set blocked) FUNCTIONS))
    \<and> (\<forall>k i. map_of (get_action_lookup blocked FUNCTIONS) k = Some i \<longleftrightarrow>
           map_of (reversed_dict (get_action_lookup blocked FUNCTIONS)) i = Some k)
    \<and> fst ` set (get_action_lookup blocked FUNCTIONS) =
        {fn_id f | f. f \<in> set FUNCTIONS \<and> general_id f = 0 \<and> fn_id f \<notin> set blocked}
    \<and> fst ` set (reversed_dict (get_action_lookup blocked FUNCTIONS)) =
        {0..<length (filter (\<lambda>f. general_id f = 0 \<and> fn_id f \<notin> set blocked) FUNCTIONS)}
    \<and> action_embed_lookup (Sc2_init FUNCTIONS unit_lookup arg_sizes max_units env) =
        get_action_lookup [4] FUNCTIONS
    \<and> action_id_lookup (Sc2_init FUNCTIONS unit_lookup arg_sizes max_units env) =
        reversed_dict (get_action_lookup [4] FUNCTIONS)
    \<and> map_of (Sc2_action_space (Sc2_init FUNCTIONS unit_lookup arg_sizes max_units env))
          ''action_id'' =
        Some (Discrete (length (filter (\<lambda>f. general_id f = 0 \<and> fn_id f \<notin> set [4]) FUNCTIONS)))"
proof -
  define ids where "ids b = map fn_id (filter (\<lambda>f. general_id f = 0 \<and> fn_id f \<notin> set b) FUNCTIONS)"
    for b :: "int list"
  have len: "length (filter (\<lambda>f. general_id f = 0 \<and> fn_id f \<notin> set b) FUNCTIONS) = length (ids b)"
    for b by (simp add: ids_def)
  have dist: "distinct (ids b)" for b
    unfolding ids_def using assms by (rule distinct_map_filter)
  have lookup: "get_action_lookup b FUNCTIONS = zip (ids b) [0..<length (ids b)]" for b
    using get_action_lookup_loop_append [of FUNCTIONS "[]" b 0] assms
    by (simp add: get_action_lookup_def ids_def)
  have rev: "reversed_dict (get_action_lookup b FUNCTIONS) = zip [0..<length (ids b)] (ids b)" for b
    using reversed_dict_foldl [of "ids b" "[0..<length (ids b)]" "[]"]
    by (simp add: reversed_dict_def lookup)
  have inv: "map_of (get_action_lookup blocked FUNCTIONS) k = Some i \<longleftrightarrow>
      map_of (reversed_dict (get_action_lookup blocked FUNCTIONS)) i = Some k" for k i
    unfolding rev unfolding lookup by (simp add: map_of_zip_index [OF dist] map_of_index_zip)
  have dom1: "fst ` set (get_action_lookup blocked FUNCTIONS) =
      {fn_id f | f. f \<in> set FUNCTIONS \<and> general_id f = 0 \<and> fn_id f \<notin> set blocked}"
  proof -
    have "fst ` set (zip (ids blocked) [0..<length (ids blocked)]) = set (ids blocked)"
      by (metis diff_zero length_upt map_fst_zip set_map)
    then show ?thesis by (auto simp: lookup ids_def)
  qed
  have dom2: "fst ` set (reversed_dict (get_action_lookup blocked FUNCTIONS)) =
      {0..<length (ids blocked)}"
  proof -
    have "fst ` set (zip [0..<length (ids blocked)] (ids blocked)) = set [0..<length (ids blocked)]"
      by (metis diff_zero length_upt map_fst_zip set_map)
    then show ?thesis by (simp add: rev)
  qed
  have sp: "map_of (Sc2_action_space (Sc2_init FUNCTIONS unit_lookup arg_sizes max_units env))
      ''action_id'' = Some (Discrete (length (ids [4])))"
    by (simp add: Sc2_action_space_def action_space_args_action_id Sc2_init_def lookup)
  have e1: "action_embed_lookup (Sc2_init FUNCTIONS unit_lookup arg_sizes max_units env) =
        get_action_lookup [4] FUNCTIONS"
    by (simp add: Sc2_init_def)
  have e2: "action_id_lookup (Sc2_init FUNCTIONS unit_lookup arg_sizes max_units env) =
        reversed_dict (get_action_lookup [4] FUNCTIONS)"
    by (simp add: Sc2_init_def)
  show ?thesis
    unfolding len unfolding ids_def [symmetric]
    by (intro conjI allI inv dom1 dom2 e1 e2 sp lookup rev)
qed

theorem get_action_lookup_bijection_witness:
  "distinct (map fn_id example_FUNCTIONS)
   \<and> get_action_lookup [4] example_FUNCTIONS = [(0, 0), (1, 1), (12, 2)]
   \<and> reversed_dict (get_action_lookup [4] example_FUNCTIONS) = [(0, 0), (1, 1), (2, 12)]
   \<and> map_of (Sc2_action_space (Sc2_init example_FUNCTIONS [] example_arg_sizes 5 ()))
        ''action_id'' = Some (Discrete 3)"
  using get_action_lookup_bijection [of example_FUNCTIONS "[4]" "[]" example_arg_sizes 5 "()"]
  by (simp add: example_FUNCTIONS_def get_action_lookup_def reversed_dict_def)

subsection \<open>Sc2: the arguments of an action\<close>

lemma map_enumerate_index:
  "map (\<lambda>(i, size). f i) (enumerate n xs) = map f [n..<n + length xs]"
proof (induction xs arbitrary: n)
  case Nil
  then show ?case by simp
next
  case (Cons x xs)
  have "[n..<n + length (x # xs)] = n # [Suc n..<Suc n + length xs]"
    by (simp add: upt_conv_Cons del: upt_Suc)
  then show ?case using Cons.IH [of "Suc n"] by simp
qed

lemma get_arg_keys_Some:
  assumes "map_of arg_sizes r = Some sizes"
  shows "get_arg_keys arg_sizes r = Inr (map (arg_key r) [0..<length sizes])"
  using assms map_enumerate_index [of "arg_key r" 0 sizes] by (simp add: get_arg_keys_def)

lemma get_arg_keys_Inr:
  assumes "get_arg_keys arg_sizes r = Inr ks"
  shows "\<exists>sizes. map_of arg_sizes r = Some sizes \<and> ks = map (arg_key r) [0..<length sizes]"
proof (cases "map_of arg_sizes r")
  case None
  then show ?thesis using assms by (simp add: get_arg_keys_def)
next
  case (Some sizes)
  then show ?thesis using assms get_arg_keys_Some [OF Some] by simp
qed

lemma arg_keys_of_Some:
  assumes "set rs \<subseteq> fst ` set arg_sizes"
  shows "arg_keys_of arg_sizes rs =
    Inr (map (\<lambda>r. map (arg_key r) [0..<length (the (map_of arg_sizes r))]) rs)"
  using assms
proof (induction rs)
  case Nil
  then show ?case by simp
next
  case (Cons r rs)
  then obtain sizes where s: "map_of arg_sizes r = Some sizes"
    by (metis insert_subset list.simps(15) map_of_eq_None_iff not_Some_eq)
  show ?case using Cons s by (simp add: get_arg_keys_Some [OF s])
qed

lemma getitems_Inr:
  "getitems d ks = Inr vs \<longleftrightarrow> set ks \<subseteq> fst ` set d \<and> vs = map (\<lambda>k. the (map_of d k)) ks"
proof (induction ks arbitrary: vs)
  case Nil
  then show ?case by auto
next
  case (Cons k ks)
  show ?case
  proof (cases "map_of d k")
    case None
    then have "k \<notin> fst ` set d" by (simp add: map_of_eq_None_iff)
    then show ?thesis using None by (auto simp: getitem_def)
  next
    case (Some v)
    then have k: "k \<in> fst ` set d" by (metis map_of_eq_None_iff option.distinct(1))
    show ?thesis
    proof (cases "getitems d ks")
      case (Inl e)
      then show ?thesis using Some Cons.IH by (auto simp: getitem_def)
    next
      case (Inr ws)
      then show ?thesis using Some k Cons.IH [of ws] by (auto simp: getitem_def)
    qed
  qed
qed

lemma arg_sets_Inr:
  "arg_sets arg_sizes action rs = Inr as \<longleftrightarrow>
     set rs \<subseteq> fst ` set arg_sizes
     \<and> (\<forall>r\<in>set rs. \<forall>i<length (the (map_of arg_sizes r)). arg_key r i \<in> fst ` set action)
     \<and> as = map (\<lambda>r. map (\<lambda>i. the (map_of action (arg_key r i)))
                       [0..<length (the (map_of arg_sizes r))]) rs"
proof (induction rs arbitrary: as)
  case Nil
  then show ?case by auto
next
  case (Cons r rs)
  show ?case
  proof (cases "map_of arg_sizes r")
    case None
    then have "r \<notin> fst ` set arg_sizes" by (simp add: map_of_eq_None_iff)
    then show ?thesis using None by (auto simp: get_arg_keys_def)
  next
    case (Some sizes)
    then have r: "r \<in> fst ` set arg_sizes" by (metis map_of_eq_None_iff option.distinct(1))
    note gk = get_arg_keys_Some [OF Some]
    show ?thesis
    proof (cases "getitems action (map (arg_key r) [0..<length sizes])")
      case (Inl e)
      then have "\<not> set (map (arg_key r) [0..<length sizes]) \<subseteq> fst ` set action"
        using getitems_Inr [of action "map (arg_key r) [0..<length sizes]"] by auto
      then show ?thesis using Inl Some gk by auto
    next
      case (Inr vs)
      then have vs: "set (map (arg_key r) [0..<length sizes]) \<subseteq> fst ` set action"
        "vs = map (\<lambda>k. the (map_of action k)) (map (arg_key r) [0..<length sizes])"
        using getitems_Inr [of action "map (arg_key r) [0..<length sizes]" vs] by auto
      show ?thesis
      proof (cases "arg_sets arg_sizes action rs")
        case (Inl e)
        then show ?thesis using Inr Some gk Cons.IH by auto
      next
        case (Inr ws)
        then show ?thesis using \<open>getitems action _ = Inr vs\<close> vs Some gk r Cons.IH [of ws]
          by (auto simp: comp_def)
      qed
    qed
  qed
qed

lemma getitems_error: "getitems d ks = Inl e \<Longrightarrow> e = KeyError"
proof (induction ks)
  case Nil
  then show ?case by simp
next
  case (Cons k ks)
  then show ?case
    by (cases "map_of d k"; cases "getitems d ks") (auto simp: getitem_def)
qed

lemma arg_sets_error: "arg_sets arg_sizes action rs = Inl e \<Longrightarrow> e = KeyError"
proof (induction rs)
  case Nil
  then show ?case by simp
next
  case (Cons r rs)
  show ?case
  proof (cases "get_arg_keys arg_sizes r")
    case (Inl e')
    then show ?thesis using Cons.prems
      by (auto simp: get_arg_keys_def split: option.splits)
  next
    case (Inr ks)
    then show ?thesis using Cons
      by (cases "getitems action ks"; cases "arg_sets arg_sizes action rs")
        (auto dest: getitems_error)
  qed
qed

lemma action_arg_lookup_loop_spec:
  assumes "\<forall>idx\<in>set ks. \<exists>sc_id f. map_of id_lookup idx = Some sc_id \<and> functions sc_id = Inr f
      \<and> set (args f) \<subseteq> fst ` set arg_sizes"
  shows "\<exists>tbl. action_arg_lookup_loop functions arg_sizes id_lookup ks acc = Inr tbl
    \<and> fst ` set tbl = fst ` set acc \<union> set ks
    \<and> (\<forall>idx. idx \<notin> set ks \<longrightarrow> map_of tbl idx = map_of acc idx)
    \<and> (\<forall>idx sc_id f. idx \<in> set ks \<and> map_of id_lookup idx = Some sc_id \<and> functions sc_id = Inr f
          \<longrightarrow> map_of tbl idx = Some (required_arg_keys arg_sizes f))"
  using assms
proof (induction ks arbitrary: acc)
  case Nil
  then show ?case by simp
next
  case (Cons k ks)
  from Cons.prems obtain sc_id f where k: "map_of id_lookup k = Some sc_id"
    "functions sc_id = Inr f" "set (args f) \<subseteq> fst ` set arg_sizes"
    by auto
  let ?acc = "AList.update k (required_arg_keys arg_sizes f) acc"
  have step: "action_arg_lookup_loop functions arg_sizes id_lookup (k # ks) acc
      = action_arg_lookup_loop functions arg_sizes id_lookup ks ?acc"
    using k by (simp add: getitem_def arg_keys_of_Some required_arg_keys_def)
  from Cons.IH [of ?acc] Cons.prems obtain tbl where tbl:
    "action_arg_lookup_loop functions arg_sizes id_lookup ks ?acc = Inr tbl"
    "fst ` set tbl = fst ` set ?acc \<union> set ks"
    "\<forall>idx. idx \<notin> set ks \<longrightarrow> map_of tbl idx = map_of ?acc idx"
    "\<forall>idx sc_id f. idx \<in> set ks \<and> map_of id_lookup idx = Some sc_id \<and> functions sc_id = Inr f
          \<longrightarrow> map_of tbl idx = Some (required_arg_keys arg_sizes f)"
    by auto
  have d: "fst ` set tbl = fst ` set acc \<union> set (k # ks)"
    using tbl(2) by (auto simp: dom_update)
  have n: "\<forall>idx. idx \<notin> set (k # ks) \<longrightarrow> map_of tbl idx = map_of acc idx"
    using tbl(3) by (auto simp: update_conv')
  have y: "\<forall>idx sc_id f. idx \<in> set (k # ks) \<and> map_of id_lookup idx = Some sc_id
      \<and> functions sc_id = Inr f \<longrightarrow> map_of tbl idx = Some (required_arg_keys arg_sizes f)"
  proof (intro allI impI)
    fix idx sc_id' f'
    assume h: "idx \<in> set (k # ks) \<and> map_of id_lookup idx = Some sc_id' \<and> functions sc_id' = Inr f'"
    show "map_of tbl idx = Some (required_arg_keys arg_sizes f')"
    proof (cases "idx \<in> set ks")
      case True
      then show ?thesis using tbl(4) h by blast
    next
      case False
      then have "idx = k" using h by simp
      then have "f' = f" using h k by simp
      then show ?thesis using tbl(3) False \<open>idx = k\<close> by (simp add: update_conv')
    qed
  qed
  show ?case unfolding step using tbl(1) d n y by blast
qed

text \<open>
  C3. Let every embedded index of \<^verbatim>\<open>action_id_lookup\<close> have a pysc2 function whose argument
  types are all in \<^verbatim>\<open>args_size_lookup\<close>. Then \<^verbatim>\<open>action_arg_lookup\<close> returns a dictionary
  over the embedded indices, and under an index it has exactly the keys
  \<^verbatim>\<open>arg_{arg_id}_{i}\<close> of the arguments its function requires, in the order of the function's
  argument spec. For an action with that index under \<^verbatim>\<open>'action_id'\<close>, \<^verbatim>\<open>step\<close> builds the
  \<^verbatim>\<open>FunctionCall\<close> of the function's id whose arguments are the values of the action under
  precisely those keys, in that order, one list per required argument; when one of the keys
  is missing from the action it raises KeyError.
\<close>

theorem Sc2_action_arg_lookup_step:
  assumes "\<forall>i\<in>fst ` set (action_id_lookup self). \<exists>s g. map_of (action_id_lookup self) i = Some s
      \<and> functions s = Inr g \<and> set (args g) \<subseteq> fst ` set (args_size_lookup self)"
    and "map_of (action_id_lookup self) idx = Some sc_id" and "functions sc_id = Inr f"
    and "map_of action ''action_id'' = Some (int idx)"
  shows "\<exists>tbl. Sc2_action_arg_lookup functions self = Inr tbl
    \<and> fst ` set tbl = fst ` set (action_id_lookup self)
    \<and> map_of tbl idx = Some (required_arg_keys (args_size_lookup self) f)
    \<and> (set (required_arg_keys (args_size_lookup self) f) \<subseteq> fst ` set action \<longrightarrow>
         Sc2_function_call functions self action =
           Inr (FunctionCall sc_id
             (map (\<lambda>r. map (\<lambda>i. the (map_of action (arg_key r i)))
                     [0..<length (the (map_of (args_size_lookup self) r))]) (args f))))
    \<and> (\<forall>fid as. Sc2_function_call functions self action = Inr (FunctionCall fid as) \<longrightarrow>
         fid = sc_id
         \<and> concat as = map (\<lambda>k. the (map_of action k))
              (required_arg_keys (args_size_lookup self) f)
         \<and> map length as = map (\<lambda>r. length (the (map_of (args_size_lookup self) r))) (args f))
    \<and> (\<not> set (required_arg_keys (args_size_lookup self) f) \<subseteq> fst ` set action \<longrightarrow>
         Sc2_function_call functions self action = Inl KeyError)"
proof -
  let ?sizes = "args_size_lookup self"
  let ?as = "map (\<lambda>r. map (\<lambda>i. the (map_of action (arg_key r i)))
                     [0..<length (the (map_of ?sizes r))]) (args f)"
  have "\<forall>i\<in>set (map fst (action_id_lookup self)). \<exists>s g. map_of (action_id_lookup self) i = Some s
      \<and> functions s = Inr g \<and> set (args g) \<subseteq> fst ` set ?sizes"
    using assms(1) by simp
  from action_arg_lookup_loop_spec [OF this, of "[]"] obtain tbl where tbl:
    "Sc2_action_arg_lookup functions self = Inr tbl"
    "fst ` set tbl = fst ` set (action_id_lookup self)"
    "\<forall>idx sc_id f. idx \<in> set (map fst (action_id_lookup self))
        \<and> map_of (action_id_lookup self) idx = Some sc_id \<and> functions sc_id = Inr f
          \<longrightarrow> map_of tbl idx = Some (required_arg_keys ?sizes f)"
    unfolding Sc2_action_arg_lookup_def by auto
  have in_dom: "idx \<in> fst ` set (action_id_lookup self)"
    using assms(2) by (metis map_of_eq_None_iff option.distinct(1))
  then have t: "map_of tbl idx = Some (required_arg_keys ?sizes f)"
    using tbl(3) assms(2,3) by simp
  have sub: "set (args f) \<subseteq> fst ` set ?sizes"
    using assms(1,2,3) in_dom by fastforce
  have call: "Sc2_function_call functions self action =
      bind_err (arg_sets ?sizes action (args f)) (\<lambda>args. Inr (FunctionCall sc_id args))"
    using assms(2,3,4) by (simp add: Sc2_function_call_def getitem_def)
  have keys: "set (required_arg_keys ?sizes f) \<subseteq> fst ` set action \<longleftrightarrow>
      (\<forall>r\<in>set (args f). \<forall>i<length (the (map_of ?sizes r)). arg_key r i \<in> fst ` set action)"
  proof
    assume l: "set (required_arg_keys ?sizes f) \<subseteq> fst ` set action"
    show "\<forall>r\<in>set (args f). \<forall>i<length (the (map_of ?sizes r)). arg_key r i \<in> fst ` set action"
    proof (intro ballI allI impI)
      fix r i assume "r \<in> set (args f)" "i < length (the (map_of ?sizes r))"
      then have "arg_key r i \<in> set (required_arg_keys ?sizes f)"
        by (auto simp: required_arg_keys_def intro!: bexI [of _ r])
      then show "arg_key r i \<in> fst ` set action" using l by blast
    qed
  next
    assume "\<forall>r\<in>set (args f). \<forall>i<length (the (map_of ?sizes r)). arg_key r i \<in> fst ` set action"
    then show "set (required_arg_keys ?sizes f) \<subseteq> fst ` set action"
      by (auto simp: required_arg_keys_def)
  qed
  have ok: "Sc2_function_call functions self action = Inr (FunctionCall sc_id ?as)"
    if "set (required_arg_keys ?sizes f) \<subseteq> fst ` set action"
  proof -
    have "arg_sets ?sizes action (args f) = Inr ?as"
      using that sub keys arg_sets_Inr [of ?sizes action "args f" ?as] by simp
    then show ?thesis by (simp add: call)
  qed
  have only: "fid = sc_id
         \<and> concat as = map (\<lambda>k. the (map_of action k)) (required_arg_keys ?sizes f)
         \<and> map length as = map (\<lambda>r. length (the (map_of ?sizes r))) (args f)"
    if "Sc2_function_call functions self action = Inr (FunctionCall fid as)" for fid as
  proof -
    from that have a: "arg_sets ?sizes action (args f) = Inr as" and "fid = sc_id"
      unfolding call by (cases "arg_sets ?sizes action (args f)"; simp)+
    then have "as = ?as" using arg_sets_Inr [of ?sizes action "args f" as] by simp
    then show ?thesis using \<open>fid = sc_id\<close>
      by (simp add: required_arg_keys_def map_concat comp_def)
  qed
  have err: "Sc2_function_call functions self action = Inl KeyError"
    if "\<not> set (required_arg_keys ?sizes f) \<subseteq> fst ` set action"
  proof (cases "arg_sets ?sizes action (args f)")
    case (Inl e)
    then show ?thesis using arg_sets_error [OF Inl] by (simp add: call)
  next
    case (Inr as)
    then show ?thesis using that keys arg_sets_Inr [of ?sizes action "args f" as] by simp
  qed
  show ?thesis using tbl(1,2) t ok only err by blast
qed

theorem Sc2_action_arg_lookup_step_witness:
  "map_of (action_id_lookup (Sc2_init example_FUNCTIONS [] example_arg_sizes 5 ())) 2 = Some 12
   \<and> example_functions 12 = Inr \<lparr>fn_id = 12, general_id = 0, args = [3, 0]\<rparr>
   \<and> map_of [(''action_id'', 2), (''arg_0_0'', 7), (''arg_0_1'', 9), (''arg_3_0'', 1)]
        ''action_id'' = Some (int 2)
   \<and> required_arg_keys example_arg_sizes \<lparr>fn_id = 12, general_id = 0, args = [3, 0]\<rparr>
        = [''arg_3_0'', ''arg_0_0'', ''arg_0_1'']
   \<and> (\<exists>tbl. Sc2_action_arg_lookup example_functions
          (Sc2_init example_FUNCTIONS [] example_arg_sizes 5 ()) = Inr tbl
        \<and> map_of tbl 2 = Some [''arg_3_0'', ''arg_0_0'', ''arg_0_1''])
   \<and> Sc2_function_call example_functions (Sc2_init example_FUNCTIONS [] example_arg_sizes 5 ())
        [(''action_id'', 2), (''arg_0_0'', 7), (''arg_0_1'', 9), (''arg_3_0'', 1)]
      = Inr (FunctionCall 12 [[1], [7, 9]])"
  using Sc2_action_arg_lookup_step [of "Sc2_init example_FUNCTIONS [] example_arg_sizes 5 ()"
      example_functions 2 12 "\<lparr>fn_id = 12, general_id = 0, args = [3, 0]\<rparr>"
      "[(''action_id'', 2), (''arg_0_0'', 7), (''arg_0_1'', 9), (''arg_3_0'', 1)]"]
  by (simp add: Sc2_init_def example_FUNCTIONS_def example_arg_sizes_def example_functions_def
      get_action_lookup_def reversed_dict_def required_arg_keys_def arg_key_def str_int_def
      Sc2_function_call_def getitem_def get_arg_keys_def enumerate_eq_zip) blast

subsection \<open>Sc2: the units of an observation\<close>

lemma bind_err_Inr: "bind_err m f = Inr y \<longleftrightarrow> (\<exists>x. m = Inr x \<and> f x = Inr y)"
  by (cases m) auto

lemma select_cols_Cons:
  "select_cols cols (u # us) = Inr rows \<longleftrightarrow>
     (\<exists>x xs. fancy_index u cols = Inr x \<and> select_cols cols us = Inr xs \<and> rows = x # xs)"
  by (auto simp: bind_err_Inr)

lemma select_cols_length: "select_cols cols units = Inr rows \<Longrightarrow> length rows = length units"
proof (induction units arbitrary: rows)
  case Nil
  then show ?case by simp
next
  case (Cons u us)
  then obtain x xs where "select_cols cols us = Inr xs" "rows = x # xs"
    unfolding select_cols_Cons by blast
  then show ?case using Cons.IH by simp
qed

lemma fancy_index_length: "fancy_index a idx = Inr x \<Longrightarrow> length x = length idx"
  by (auto simp: fancy_index_def split: if_splits)

lemma select_cols_width:
  "select_cols cols units = Inr rows \<Longrightarrow> r \<in> set rows \<Longrightarrow> length r = length cols"
proof (induction units arbitrary: rows)
  case Nil
  then show ?case by simp
next
  case (Cons u us)
  then obtain x xs where x: "fancy_index u cols = Inr x" "select_cols cols us = Inr xs"
    "rows = x # xs"
    unfolding select_cols_Cons by blast
  show ?case
  proof (cases "r = x")
    case True
    then show ?thesis using fancy_index_length [OF x(1)] by simp
  next
    case False
    then have "r \<in> set xs" using Cons.prems(2) x(3) by simp
    then show ?thesis using Cons.IH [OF x(2)] by simp
  qed
qed

lemma getitems_length: "getitems d ks = Inr vs \<Longrightarrow> length vs = length ks"
  using getitems_Inr [of d ks vs] by simp

text \<open>
  What \<^verbatim>\<open>collect_sc_observation\<close> does with at most \<^verbatim>\<open>max_units\<close> units: when it returns,
  \<^verbatim>\<open>obs['units']\<close> has \<^verbatim>\<open>max_units\<close> rows, the first \<^verbatim>\<open>unit_count\<close> of them are the rows of
  the units, the others are rows of zeros, and \<^verbatim>\<open>unit_count\<close> is the number of units.
\<close>

lemma collect_units_pads:
  assumes "collect_units unit_lookup unit_cols max_units units = Inr (rows, unit_count)"
  shows "int (length rows) = max_units \<and> unit_count = length units
    \<and> int (length units) \<le> max_units
    \<and> (\<forall>r\<in>set rows. length r = 1 + length unit_cols)
    \<and> drop unit_count rows =
        replicate (nat max_units - length units) (replicate (1 + length unit_cols) 0)"
proof -
  from assms obtain ids embed feats where
    ids: "select_cols [0] units = Inr ids"
    and embed: "getitems unit_lookup (concat ids) = Inr embed"
    and feats: "select_cols unit_cols units = Inr feats"
    and res: "(let units_out = map2 (#) embed feats;
            unit_dim = max_units - int (length units_out);
            feature_dim = 1 + length unit_cols
        in if unit_dim < 0 then Inl ValueError
           else Inr (units_out @ replicate (nat unit_dim) (replicate feature_dim 0),
                     length units_out)) = Inr (rows, unit_count)"
    unfolding collect_units_def bind_err_Inr by blast
  have l1: "length ids = length units" using ids by (rule select_cols_length)
  have w1: "\<forall>r\<in>set ids. length r = 1" using select_cols_width [OF ids] by simp
  have "length (concat ids) = length ids"
    using w1 by (induction ids) auto
  then have le: "length embed = length units"
    using getitems_length [OF embed] l1 by simp
  have lf: "length feats = length units" using feats by (rule select_cols_length)
  have wf: "\<forall>r\<in>set feats. length r = length unit_cols"
    using select_cols_width [OF feats] by simp
  let ?out = "map2 (#) embed feats"
  have lo: "length ?out = length units" using le lf by simp
  have wo: "\<forall>r\<in>set ?out. length r = 1 + length unit_cols"
  proof
    fix r assume "r \<in> set ?out"
    then obtain e f where "r = e # f" "(e, f) \<in> set (zip embed feats)" by auto
    then show "length r = 1 + length unit_cols" using wf set_zip_rightD by fastforce
  qed
  have res': "(if max_units - int (length units) < 0 then Inl ValueError
       else Inr (?out @ replicate (nat (max_units - int (length units)))
                   (replicate (1 + length unit_cols) 0), length units)) = Inr (rows, unit_count)"
    using res unfolding Let_def lo .
  have fit: "int (length units) \<le> max_units"
  proof (rule ccontr)
    assume "\<not> int (length units) \<le> max_units"
    then have "max_units - int (length units) < 0" by simp
    then show False using res' by simp
  qed
  then have nneg: "\<not> max_units - int (length units) < 0" by simp
  have rows: "rows = ?out @ replicate (nat (max_units - int (length units)))
        (replicate (1 + length unit_cols) 0)"
    and cnt: "unit_count = length units"
    using res' unfolding if_not_P [OF nneg] by auto
  have n: "nat (max_units - int (length units)) = nat max_units - length units"
    by simp
  have len: "int (length rows) = max_units"
    unfolding rows using fit lo by simp
  have width: "\<forall>r\<in>set rows. length r = 1 + length unit_cols"
    unfolding rows using wo by auto
  have pad: "drop unit_count rows =
      replicate (nat max_units - length units) (replicate (1 + length unit_cols) 0)"
    unfolding rows cnt n using lo by simp
  show ?thesis
    using len cnt fit width pad by blast
qed

text \<open>
  C1 at a failing input: with \<^verbatim>\<open>max_units = 2\<close> and three units on the screen,
  \<^verbatim>\<open>collect_sc_observation\<close> returns no observation: \<^verbatim>\<open>np.zeros\<close> raises ValueError on the
  negative number of padding rows, where the claim has the rows reduced to \<^verbatim>\<open>max_units\<close>.
  With \<^verbatim>\<open>max_units = 4\<close> the same units are padded by one row of zeros.
\<close>

theorem collect_sc_observation_too_many_units:
  "collect_sc_observation (Sc2_init example_FUNCTIONS [(48, 7), (21, 3)] example_arg_sizes 2 ())
      [1, 2] [2, 1] example_timestep = Inl ValueError
   \<and> collect_units [(48, 7), (21, 3)] [2, 1] 2 (feature_units (ts_observation example_timestep))
      = Inl ValueError
   \<and> collect_units [(48, 7), (21, 3)] [2, 1] 4 (feature_units (ts_observation example_timestep))
      = Inr ([[7, 20, 10], [3, 22, 11], [7, 1, 0], [0, 0, 0]], 3)"
  by (simp add: collect_sc_observation_def collect_units_def Sc2_init_def example_timestep_def
      example_FUNCTIONS_def get_action_lookup_def available_actions_categorical_def getitem_def
      getattr_def np_stack_axis2_def shape2_def fancy_index_def)

subsection \<open>The uniform interface\<close>




















subsection \<open>Atari and its lock\<close>




subsection \<open>Set transformer: operations on well-shaped tensors\<close>

lemma sequence_err_map:
  "(\<And>x. x \<in> set xs \<Longrightarrow> f x = Inr (g x)) \<Longrightarrow> sequence_err (map f xs) = Inr (map g xs)"
  by (induction xs) auto

lemma broadcast_axis_same:
  assumes "length xs = length ys"
    and "\<And>x y. (x, y) \<in> set (zip xs ys) \<Longrightarrow> f x y = Inr (g x y)"
  shows "broadcast_axis f xs ys = Inr (map2 g xs ys)"
proof -
  have "sequence_err (map (\<lambda>(x, y). f x y) (zip xs ys)) = Inr (map (\<lambda>(x, y). g x y) (zip xs ys))"
    by (rule sequence_err_map) (use assms(2) in auto)
  then show ?thesis using assms(1) by (simp add: broadcast_axis_def)
qed

text \<open>The element of a broadcast axis that meets position \<open>i\<close>.\<close>

lemma broadcast_axis_fits:
  assumes "length ys = length xs \<or> length ys = 1"
    and "\<And>i. i < length xs \<Longrightarrow>
      f (xs ! i) (ys ! (if length ys = 1 then 0 else i)) =
        Inr (g (xs ! i) (ys ! (if length ys = 1 then 0 else i)))"
  shows "broadcast_axis f xs ys =
    Inr (map (\<lambda>i. g (xs ! i) (ys ! (if length ys = 1 then 0 else i))) [0..<length xs])"
proof -
  define bi where "bi i = (if length ys = 1 then 0 else i)" for i :: nat
  have fg: "f (xs ! i) (ys ! bi i) = Inr (g (xs ! i) (ys ! bi i))" if "i < length xs" for i
    using assms(2) [OF that] by (simp only: bi_def)
  have goal: "broadcast_axis f xs ys = Inr (map (\<lambda>i. g (xs ! i) (ys ! bi i)) [0..<length xs])"
  proof (cases "length xs = length ys")
    case True
    have same: "bi i = i" if "i < length xs" for i
      using that True by (auto simp: bi_def)
    have "broadcast_axis f xs ys = Inr (map2 g xs ys)"
    proof (rule broadcast_axis_same [OF True])
      fix x y assume "(x, y) \<in> set (zip xs ys)"
      then obtain i where i: "i < length xs" "x = xs ! i" "y = ys ! i"
        by (auto simp: in_set_zip)
      show "f x y = Inr (g x y)" using fg [OF i(1)] same [OF i(1)] i by simp
    qed
    moreover have "map2 g xs ys = map (\<lambda>i. g (xs ! i) (ys ! bi i)) [0..<length xs]"
    proof (rule nth_equalityI)
      show "length (map2 g xs ys) = length (map (\<lambda>i. g (xs ! i) (ys ! bi i)) [0..<length xs])"
        using True by simp
    next
      fix i assume "i < length (map2 g xs ys)"
      then have i: "i < length xs" "i < length ys" using True by simp_all
      show "map2 g xs ys ! i = map (\<lambda>i. g (xs ! i) (ys ! bi i)) [0..<length xs] ! i"
        using i same [OF i(1)] by simp
    qed
    ultimately show ?thesis by (simp only:)
  next
    case False
    then have one: "length ys = 1" using assms(1) by auto
    have hd0: "hd ys = ys ! bi i" for i
      using one by (cases ys) (auto simp: bi_def)
    have "sequence_err (map (\<lambda>x. f x (hd ys)) xs) = Inr (map (\<lambda>x. g x (hd ys)) xs)"
    proof (rule sequence_err_map)
      fix x assume "x \<in> set xs"
      then obtain i where i: "i < length xs" "x = xs ! i" by (auto simp: in_set_conv_nth)
      show "f x (hd ys) = Inr (g x (hd ys))" using fg [OF i(1)] i hd0 [of i] by simp
    qed
    moreover have "map (\<lambda>x. g x (hd ys)) xs = map (\<lambda>i. g (xs ! i) (ys ! bi i)) [0..<length xs]"
    proof (rule nth_equalityI)
      show "length (map (\<lambda>x. g x (hd ys)) xs)
          = length (map (\<lambda>i. g (xs ! i) (ys ! bi i)) [0..<length xs])"
        by simp
    next
      fix i assume "i < length (map (\<lambda>x. g x (hd ys)) xs)"
      then have i: "i < length xs" by simp
      show "map (\<lambda>x. g x (hd ys)) xs ! i = map (\<lambda>i. g (xs ! i) (ys ! bi i)) [0..<length xs] ! i"
        using i hd0 [of i] by simp
    qed
    moreover have "broadcast_axis f xs ys = sequence_err (map (\<lambda>x. f x (hd ys)) xs)"
      using False one by (simp add: broadcast_axis_def)
    ultimately show ?thesis by (simp only:)
  qed
  show ?thesis using goal by (simp only: bi_def)
qed

lemma chunks_simps_Nil [simp]: "chunks k [] = []"
  by (simp add: chunks.simps)

lemma chunks_append:
  assumes "0 < k" "length r = k"
  shows "chunks k (r @ xs) = r # chunks k xs"
  using assms by (subst chunks.simps) auto

lemma chunks_concat:
  assumes "0 < k" "\<And>r. r \<in> set rows \<Longrightarrow> length r = k"
  shows "chunks k (concat rows) = rows"
  using assms(2) by (induction rows) (simp_all add: chunks_append [OF assms(1)])

lemma split_into_concat:
  assumes "length t = b" "\<And>m. m \<in> set t \<Longrightarrow> length m = n"
  shows "split_into b (concat t) = t"
proof (cases "b = 0")
  case True
  then show ?thesis using assms(1) by (simp add: split_into_def)
next
  case False
  have len: "length (concat t) = b * n"
    using assms by (induction t arbitrary: b) auto
  have piece: "take n (drop (i * n) (concat t)) = t ! i" if "i < length t" for i
    using that assms(2)
  proof (induction t arbitrary: i)
    case Nil
    then show ?case by simp
  next
    case (Cons m t)
    show ?case
    proof (cases i)
      case 0
      then show ?thesis using Cons.prems by simp
    next
      case (Suc j)
      have "length m = n" using Cons.prems by simp
      then have "drop (i * n) (m @ concat t) = drop (j * n) (concat t)"
        using Suc by simp
      then show ?thesis using Cons Suc by simp
    qed
  qed
  have dv: "length (concat t) div b = n" using len False by simp
  have "map (\<lambda>i. take n (drop (i * n) (concat t))) [0..<b] = map (\<lambda>i. t ! i) [0..<b]"
    by (rule map_cong) (use piece assms(1) in auto)
  also have "\<dots> = t" using assms(1) map_nth [of t] by simp
  finally show ?thesis by (simp add: split_into_def dv)
qed

lemma concat_chunks: "0 < k \<Longrightarrow> concat (chunks k xs) = xs"
proof (induction k xs rule: chunks.induct)
  case (1 k xs)
  show ?case
  proof (cases "xs = []")
    case True
    then show ?thesis by simp
  next
    case False
    then have "concat (chunks k (drop k xs)) = drop k xs" using 1 by simp
    then show ?thesis using False 1(2) by (subst chunks.simps) simp
  qed
qed

lemma chunks_shape:
  assumes "0 < k" "length xs = h * k"
  shows "length (chunks k xs) = h \<and> (\<forall>c\<in>set (chunks k xs). length c = k)"
  using assms
proof (induction h arbitrary: xs)
  case 0
  then show ?case by simp
next
  case (Suc h)
  then have ne: "xs \<noteq> []" by auto
  have "length (drop k xs) = h * k" using Suc.prems by simp
  then have "length (chunks k (drop k xs)) = h \<and> (\<forall>c\<in>set (chunks k (drop k xs)). length c = k)"
    using Suc.IH Suc.prems(1) by blast
  moreover have "chunks k xs = take k xs # chunks k (drop k xs)"
    using ne Suc.prems(1) by (subst chunks.simps) simp
  moreover have "length (take k xs) = k" using Suc.prems by simp
  ultimately show ?case by simp
qed

lemma has_shape2_iff: "has_shape2 n d m \<longleftrightarrow> length m = n \<and> (\<forall>r\<in>set m. length r = d)"
  by (simp add: has_shape2_def list_all_iff)

lemma has_shape3_iff: "has_shape3 b n d x \<longleftrightarrow> length x = b \<and> (\<forall>m\<in>set x. has_shape2 n d m)"
  by (simp add: has_shape3_def list_all_iff)

lemma has_shape4_iff: "has_shape4 b h n d x \<longleftrightarrow> length x = b \<and> (\<forall>m\<in>set x. has_shape3 h n d m)"
  by (simp add: has_shape4_def list_all_iff)

lemma sequence_err_shape:
  assumes "\<And>x. x \<in> set xs \<Longrightarrow> \<exists>z. f x = Inr z \<and> P z"
  shows "\<exists>zs. sequence_err (map f xs) = Inr zs \<and> length zs = length xs \<and> (\<forall>z\<in>set zs. P z)"
  using assms
proof (induction xs)
  case Nil
  then show ?case by simp
next
  case (Cons x xs)
  obtain z where z: "f x = Inr z" "P z" using Cons.prems by auto
  obtain zs where zs: "sequence_err (map f xs) = Inr zs" "length zs = length xs" "\<forall>z\<in>set zs. P z"
    using Cons by auto
  show ?case using z zs by simp
qed

lemma broadcast_axis_shape:
  assumes "length ys = length xs \<or> length ys = 1"
    and "\<And>x y. x \<in> set xs \<Longrightarrow> y \<in> set ys \<Longrightarrow> \<exists>z. f x y = Inr z \<and> P z"
  shows "\<exists>zs. broadcast_axis f xs ys = Inr zs \<and> length zs = length xs \<and> (\<forall>z\<in>set zs. P z)"
proof (cases "length xs = length ys")
  case True
  have "\<exists>zs. sequence_err (map (\<lambda>(x, y). f x y) (zip xs ys)) = Inr zs
      \<and> length zs = length (zip xs ys) \<and> (\<forall>z\<in>set zs. P z)"
  proof (rule sequence_err_shape)
    fix xy assume "xy \<in> set (zip xs ys)"
    then obtain x y where "xy = (x, y)" "x \<in> set xs" "y \<in> set ys"
      by (metis set_zip_leftD set_zip_rightD surj_pair)
    then show "\<exists>z. (case xy of (x, y) \<Rightarrow> f x y) = Inr z \<and> P z" using assms(2) by simp
  qed
  then show ?thesis using True by (simp add: broadcast_axis_def)
next
  case False
  then have one: "length ys = 1" using assms(1) by auto
  then have "hd ys \<in> set ys" by (cases ys) auto
  then have "\<exists>zs. sequence_err (map (\<lambda>x. f x (hd ys)) xs) = Inr zs
      \<and> length zs = length xs \<and> (\<forall>z\<in>set zs. P z)"
    by (intro sequence_err_shape assms(2))
  then show ?thesis using False one by (simp add: broadcast_axis_def)
qed

lemma dense_shape:
  assumes "has_shape3 b n d x" "has_shape2 u d kern"
  shows "dense kern x = Inr (map (map (\<lambda>r. map (dot r) kern)) x)
    \<and> has_shape3 b n u (map (map (\<lambda>r. map (dot r) kern)) x)"
proof -
  have "list_all (list_all (\<lambda>r. list_all (\<lambda>col. length col = length r) kern)) x"
    using assms by (auto simp: has_shape3_iff has_shape2_iff list_all_iff)
  then have "dense kern x = Inr (map (map (\<lambda>r. map (dot r) kern)) x)"
    by (simp add: dense_def)
  moreover have "has_shape3 b n u (map (map (\<lambda>r. map (dot r) kern)) x)"
    using assms by (auto simp: has_shape3_iff has_shape2_iff)
  ultimately show ?thesis by simp
qed

lemma dense_bias_shape:
  assumes "has_shape3 b n d x" "has_shape2 u d kern" "length bias = u"
  shows "\<exists>y. dense_bias kern bias x = Inr y \<and> has_shape3 b n u y"
proof -
  have "list_all (list_all (\<lambda>r. list_all (\<lambda>col. length col = length r) kern)) x"
    using assms by (auto simp: has_shape3_iff has_shape2_iff list_all_iff)
  moreover have "length bias = length kern" using assms by (simp add: has_shape2_iff)
  ultimately have "dense_bias kern bias x
      = Inr (map (map (\<lambda>r. map2 (+) (map (dot r) kern) bias)) x)"
    by (simp add: dense_bias_def)
  moreover have "has_shape3 b n u (map (map (\<lambda>r. map2 (+) (map (dot r) kern) bias)) x)"
    using assms by (auto simp: has_shape3_iff has_shape2_iff)
  ultimately show ?thesis by simp
qed

lemma layer_norm_shape:
  assumes "has_shape3 b n d x" "length gamma = d" "length beta = d"
  shows "\<exists>y. layer_norm gamma beta x = Inr y \<and> has_shape3 b n d y"
proof -
  have "list_all (list_all (\<lambda>r. length r = length gamma)) x"
    using assms by (auto simp: has_shape3_iff has_shape2_iff list_all_iff)
  then have "layer_norm gamma beta x = Inr (map (map (layer_norm_row gamma beta)) x)"
    using assms by (simp add: layer_norm_def)
  moreover have "length (layer_norm_row gamma beta r) = d" if "length r = d" for r
    using that assms by (simp add: layer_norm_row_def Let_def)
  then have "has_shape3 b n d (map (map (layer_norm_row gamma beta)) x)"
    using assms(1) by (auto simp: has_shape3_iff has_shape2_iff)
  ultimately show ?thesis by simp
qed

lemma tf_add3_shape:
  assumes "has_shape3 b n d x" "has_shape3 b n d y"
  shows "\<exists>z. tf_add3 x y = Inr z \<and> has_shape3 b n d z"
proof -
  have rows: "\<exists>z. broadcast_axis add_scalar r s = Inr z \<and> length z = d"
    if "length r = d" "length s = d" for r s
    using broadcast_axis_shape [of s r add_scalar "\<lambda>z. True"] that
    by (auto simp: add_scalar_def)
  have mats: "\<exists>z. broadcast_axis (broadcast_axis add_scalar) m m' = Inr z \<and> has_shape2 n d z"
    if "has_shape2 n d m" "has_shape2 n d m'" for m m'
    using broadcast_axis_shape [of m' m "broadcast_axis add_scalar" "\<lambda>z. length z = d"] that rows
    by (auto simp: has_shape2_iff)
  have "\<exists>z. broadcast_axis (broadcast_axis (broadcast_axis add_scalar)) x y = Inr z
      \<and> length z = length x \<and> (\<forall>m\<in>set z. has_shape2 n d m)"
    by (rule broadcast_axis_shape) (use assms mats in \<open>auto simp: has_shape3_iff\<close>)
  then show ?thesis using assms(1) by (auto simp: tf_add3_def has_shape3_iff)
qed

lemma length_concat_const:
  "(\<And>m. m \<in> set xs \<Longrightarrow> length m = c) \<Longrightarrow> length (concat xs) = length xs * c"
  by (induction xs) auto

lemma concat_concat_map: "concat (concat xss) = concat (map concat xss)"
  by (induction xss) auto

lemma reshape_heads_shape:
  assumes "has_shape3 b n (h * dp) x" "0 < b" "0 < h" "0 < dp"
  shows "reshape_heads b h dp x = Inr (map (map (chunks dp)) x)"
proof -
  have rows: "length r = h * dp" if "r \<in> set (concat x)" for r
    using that assms(1) by (auto simp: has_shape3_iff has_shape2_iff)
  have mats: "length m = n" if "m \<in> set x" for m
    using that assms(1) by (auto simp: has_shape3_iff has_shape2_iff)
  have lx: "length x = b" using assms(1) by (simp add: has_shape3_iff)
  have "length (concat x) = b * n" using length_concat_const [of x n] mats lx by simp
  then have len: "length (concat (concat x)) = b * n * (h * dp)"
    using length_concat_const [of "concat x" "h * dp"] rows by simp
  have "b * n * (h * dp) = n * (b * h * dp)" by simp
  then have check: "length (concat (concat x)) mod (b * h * dp) = 0" "b * h * dp \<noteq> 0"
    using len assms(2-4) by simp_all
  have pieces: "length c = dp" if "c \<in> set (concat (map (chunks dp) (concat x)))" for c
    using that chunks_shape [OF assms(4) rows] by auto
  have "concat (concat x) = concat (map concat (map (chunks dp) (concat x)))"
    by (simp add: concat_chunks [OF assms(4)] comp_def)
  also have "\<dots> = concat (concat (map (chunks dp) (concat x)))"
    by (simp add: concat_concat_map)
  finally have "chunks dp (concat (concat x)) = concat (map (chunks dp) (concat x))"
    using chunks_concat [OF assms(4), of "concat (map (chunks dp) (concat x))"] pieces by simp
  moreover have "chunks h (concat (map (chunks dp) (concat x))) = map (chunks dp) (concat x)"
    by (rule chunks_concat [OF assms(3)]) (use chunks_shape [OF assms(4) rows] in auto)
  moreover have "map (chunks dp) (concat x) = concat (map (map (chunks dp)) x)"
    by (simp add: map_concat)
  moreover have "split_into b (concat (map (map (chunks dp)) x)) = map (map (chunks dp)) x"
    by (rule split_into_concat [where n = n]) (use lx mats in auto)
  ultimately show ?thesis using check by (simp add: reshape_heads_def)
qed

lemma split_heads_shape:
  assumes "has_shape3 b n (h * dp) x" "0 < b" "0 < h" "0 < dp"
    "num_heads self = h" "depth self = dp"
  shows "split_heads self x b =
      Inr (map (\<lambda>m. map (\<lambda>j. map (\<lambda>r. chunks dp r ! j) m) [0..<h]) x)
    \<and> has_shape4 b h n dp (map (\<lambda>m. map (\<lambda>j. map (\<lambda>r. chunks dp r ! j) m) [0..<h]) x)"
proof -
  have "split_heads self x b = Inr (map (\<lambda>m. map (\<lambda>j. map (\<lambda>r. chunks dp r ! j) m) [0..<h]) x)"
    using reshape_heads_shape [OF assms(1-4)] assms(5,6)
    by (simp add: split_heads_def transpose_0213_def comp_def)
  moreover have piece: "length (chunks dp r ! j) = dp" if "length r = h * dp" "j < h" for r j
    using chunks_shape [OF assms(4) that(1)] that(2) by (metis nth_mem)
  have "has_shape4 b h n dp (map (\<lambda>m. map (\<lambda>j. map (\<lambda>r. chunks dp r ! j) m) [0..<h]) x)"
    unfolding has_shape4_iff has_shape3_iff has_shape2_iff
  proof (intro conjI ballI)
    show "length (map (\<lambda>m. map (\<lambda>j. map (\<lambda>r. chunks dp r ! j) m) [0..<h]) x) = b"
      using assms(1) by (simp add: has_shape3_iff)
  next
    fix t assume "t \<in> set (map (\<lambda>m. map (\<lambda>j. map (\<lambda>r. chunks dp r ! j) m) [0..<h]) x)"
    then obtain m where m: "m \<in> set x" "t = map (\<lambda>j. map (\<lambda>r. chunks dp r ! j) m) [0..<h]"
      by auto
    have mm: "length m = n" "\<And>r. r \<in> set m \<Longrightarrow> length r = h * dp"
      using m(1) assms(1) by (auto simp: has_shape3_iff has_shape2_iff)
    show "length t = h" using m(2) by simp
    fix a assume "a \<in> set t"
    then obtain j where j: "j < h" "a = map (\<lambda>r. chunks dp r ! j) m" using m(2) by auto
    show "length a = n" using j mm by simp
    fix c assume "c \<in> set a"
    then obtain r where r: "r \<in> set m" "c = chunks dp r ! j" using j by auto
    show "length c = dp" unfolding r(2) by (rule piece [OF mm(2) [OF r(1)] j(1)])
  qed
  ultimately show ?thesis by simp
qed

lemma reshape_concat_shape:
  assumes "has_shape4 b k h dp t" "0 < b" "0 < h" "0 < dp"
  shows "reshape_concat b (h * dp) t = Inr (map (map concat) t)
    \<and> has_shape3 b k (h * dp) (map (map concat) t)"
proof -
  have lt: "length t = b" using assms(1) by (simp add: has_shape4_iff)
  have mats: "length m = k" if "m \<in> set t" for m
    using that assms(1) by (auto simp: has_shape4_iff has_shape3_iff)
  have pos: "length (concat p) = h * dp" if "p \<in> set (concat t)" for p
  proof -
    have "length p = h" "\<And>c. c \<in> set p \<Longrightarrow> length c = dp"
      using that assms(1) by (auto simp: has_shape4_iff has_shape3_iff has_shape2_iff)
    then show ?thesis using length_concat_const [of p dp] by simp
  qed
  have "length (concat t) = b * k" using length_concat_const [of t k] mats lt by simp
  then have "length (concat (map concat (concat t))) = b * k * (h * dp)"
    using length_concat_const [of "map concat (concat t)" "h * dp"] pos by auto
  moreover have flat: "concat (concat (concat t)) = concat (map concat (concat t))"
    by (rule concat_concat_map)
  moreover have "b * k * (h * dp) = k * (b * (h * dp))" by simp
  ultimately have check: "length (concat (concat (concat t))) mod (b * (h * dp)) = 0"
    "b * (h * dp) \<noteq> 0"
    using assms(2-4) by simp_all
  have "chunks (h * dp) (concat (map concat (concat t))) = map concat (concat t)"
    by (rule chunks_concat) (use assms(3,4) pos in auto)
  moreover have "map concat (concat t) = concat (map (map concat) t)"
    by (simp add: map_concat)
  moreover have "split_into b (concat (map (map concat) t)) = map (map concat) t"
    by (rule split_into_concat [where n = k]) (use lt mats in auto)
  ultimately have "reshape_concat b (h * dp) t = Inr (map (map concat) t)"
    using check flat by (simp add: reshape_concat_def)
  moreover have "has_shape3 b k (h * dp) (map (map concat) t)"
    using lt mats pos by (auto simp: has_shape3_iff has_shape2_iff)
  ultimately show ?thesis by simp
qed

lemma matmul_nt_shape:
  assumes "has_shape2 k dp a" "has_shape2 n dp bm"
  shows "\<exists>z. matmul_nt a bm = Inr z \<and> has_shape2 k n z"
proof -
  have "list_all (\<lambda>r. list_all (\<lambda>s. length s = length r) bm) a"
    using assms by (auto simp: has_shape2_iff list_all_iff)
  then have "matmul_nt a bm = Inr (map (\<lambda>r. map (dot r) bm) a)"
    by (simp add: matmul_nt_def)
  moreover have "has_shape2 k n (map (\<lambda>r. map (dot r) bm) a)"
    using assms by (auto simp: has_shape2_iff)
  ultimately show ?thesis by simp
qed

lemma matmul_shape:
  assumes "has_shape2 k n a" "has_shape2 n dp v" "0 < n"
  shows "\<exists>z. matmul a v = Inr z \<and> has_shape2 k dp z"
proof -
  obtain s0 ss where v: "v = s0 # ss" using assms(2,3) by (cases v) (auto simp: has_shape2_iff)
  then have cols: "(case v of [] \<Rightarrow> 0 | s0 # ss \<Rightarrow> length s0) = dp"
    using assms(2) by (simp add: has_shape2_iff)
  have "list_all (\<lambda>r. length r = length v) a" "list_all (\<lambda>s. length s = dp) v"
    using assms by (auto simp: has_shape2_iff list_all_iff)
  then have "matmul a v =
      Inr (map (\<lambda>r. map (\<lambda>c. sum_list (map2 (\<lambda>w s. w * s ! c) r v)) [0..<dp]) a)"
    unfolding matmul_def cols by simp
  moreover have "has_shape2 k dp (map (\<lambda>r. map (\<lambda>c. sum_list (map2 (\<lambda>w s. w * s ! c) r v)) [0..<dp]) a)"
    using assms(1) by (auto simp: has_shape2_iff)
  ultimately show ?thesis by simp
qed

lemma broadcast_axis2_shape:
  assumes "has_shape4 b h k d1 x" "has_shape4 b h n d2 y"
    and "\<And>m m'. has_shape2 k d1 m \<Longrightarrow> has_shape2 n d2 m' \<Longrightarrow> \<exists>z. f m m' = Inr z \<and> has_shape2 k' d' z"
  shows "\<exists>z. broadcast_axis (broadcast_axis f) x y = Inr z \<and> has_shape4 b h k' d' z"
proof -
  have inner: "\<exists>z. broadcast_axis f t t' = Inr z \<and> has_shape3 h k' d' z"
    if "has_shape3 h k d1 t" "has_shape3 h n d2 t'" for t t'
  proof -
    have "\<exists>z. broadcast_axis f t t' = Inr z \<and> length z = length t \<and> (\<forall>m\<in>set z. has_shape2 k' d' m)"
      by (rule broadcast_axis_shape) (use that assms(3) in \<open>auto simp: has_shape3_iff\<close>)
    then show ?thesis using that(1) by (auto simp: has_shape3_iff)
  qed
  have "\<exists>z. broadcast_axis (broadcast_axis f) x y = Inr z \<and> length z = length x
      \<and> (\<forall>t\<in>set z. has_shape3 h k' d' t)"
    by (rule broadcast_axis_shape) (use assms(1,2) inner in \<open>auto simp: has_shape4_iff\<close>)
  then show ?thesis using assms(1) by (auto simp: has_shape4_iff)
qed

lemma map4_shape:
  "has_shape4 b h k n x \<Longrightarrow> has_shape4 b h k n (map (map (map (map f))) x)"
  by (auto simp: has_shape4_iff has_shape3_iff has_shape2_iff)

lemma tf_add4_mask_shape:
  assumes "has_shape4 b h k n x" "has_shape4 b' h' k' n' m"
    "b' = b \<or> b' = 1" "h' = h \<or> h' = 1" "k' = k \<or> k' = 1" "n' = n \<or> n' = 1"
  shows "\<exists>z. tf_add4 x m = Inr z \<and> has_shape4 b h k n z"
proof -
  have rows: "\<exists>z. broadcast_axis add_scalar r s = Inr z \<and> length z = n"
    if "length r = n" "length s = n'" for r s
    using broadcast_axis_shape [of s r add_scalar "\<lambda>z. True"] that assms(6)
    by (auto simp: add_scalar_def)
  have mats: "\<exists>z. broadcast_axis (broadcast_axis add_scalar) a a' = Inr z \<and> has_shape2 k n z"
    if "has_shape2 k n a" "has_shape2 k' n' a'" for a a'
  proof -
    have "\<exists>z. broadcast_axis (broadcast_axis add_scalar) a a' = Inr z \<and> length z = length a
        \<and> (\<forall>r\<in>set z. length r = n)"
      by (rule broadcast_axis_shape) (use that assms(5) rows in \<open>auto simp: has_shape2_iff\<close>)
    then show ?thesis using that(1) by (auto simp: has_shape2_iff)
  qed
  have t3: "\<exists>z. broadcast_axis (broadcast_axis (broadcast_axis add_scalar)) t t' = Inr z
      \<and> has_shape3 h k n z"
    if "has_shape3 h k n t" "has_shape3 h' k' n' t'" for t t'
  proof -
    have "\<exists>z. broadcast_axis (broadcast_axis (broadcast_axis add_scalar)) t t' = Inr z
        \<and> length z = length t \<and> (\<forall>a\<in>set z. has_shape2 k n a)"
      by (rule broadcast_axis_shape) (use that assms(4) mats in \<open>auto simp: has_shape3_iff\<close>)
    then show ?thesis using that(1) by (auto simp: has_shape3_iff)
  qed
  have "\<exists>z. broadcast_axis (broadcast_axis (broadcast_axis (broadcast_axis add_scalar))) x m = Inr z
      \<and> length z = length x \<and> (\<forall>t\<in>set z. has_shape3 h k n t)"
    by (rule broadcast_axis_shape) (use assms(1-3) t3 in \<open>auto simp: has_shape4_iff\<close>)
  then show ?thesis using assms(1) by (auto simp: tf_add4_def has_shape4_iff)
qed

lemma softmax_length: "length (softmax l) = length l"
  by (simp add: softmax_def)

lemma scaled_dot_product_attention_shape:
  assumes "has_shape4 b h k dp q" "has_shape4 b h n dp kk" "has_shape4 b h n dp v"
    "mask_broadcastable b h k n msk" "0 < n"
  shows "\<exists>out w. scaled_dot_product_attention q kk v msk = Inr (out, w)
    \<and> has_shape4 b h k dp out \<and> has_shape4 b h k n w"
proof -
  obtain L where L: "batch_matmul_nt q kk = Inr L" "has_shape4 b h k n L"
    unfolding batch_matmul_nt_def
    using broadcast_axis2_shape [OF assms(1,2), of matmul_nt k n] matmul_nt_shape by blast
  let ?S = "map (map (map (map (\<lambda>x. x / sqrt (real (last_len kk)))))) L"
  have S: "has_shape4 b h k n ?S" using L(2) by (rule map4_shape)
  have "\<exists>A. (case msk of None \<Rightarrow> Inr ?S
        | Some m \<Rightarrow> tf_add4 ?S (map (map (map (map (\<lambda>x. x * - (10 ^ 9))))) m)) = Inr A
      \<and> has_shape4 b h k n A"
  proof (cases msk)
    case None
    then show ?thesis using S by simp
  next
    case (Some m)
    then obtain b' h' k' n' where m: "has_shape4 b' h' k' n' m"
      "b' = b \<or> b' = 1" "h' = h \<or> h' = 1" "k' = k \<or> k' = 1" "n' = n \<or> n' = 1"
      using assms(4) by (auto simp: mask_broadcastable_def)
    have "has_shape4 b' h' k' n' (map (map (map (map (\<lambda>x. x * - (10 ^ 9))))) m)"
      using m(1) by (rule map4_shape)
    from tf_add4_mask_shape [OF S this m(2-5)] show ?thesis using Some by simp
  qed
  then obtain A where A: "(case msk of None \<Rightarrow> Inr ?S
        | Some m \<Rightarrow> tf_add4 ?S (map (map (map (map (\<lambda>x. x * - (10 ^ 9))))) m)) = Inr A"
      "has_shape4 b h k n A"
    by blast
  let ?W = "map (map (map softmax)) A"
  have W: "has_shape4 b h k n ?W"
    using A(2) by (auto simp: has_shape4_iff has_shape3_iff has_shape2_iff softmax_length)
  obtain out where out: "batch_matmul ?W v = Inr out" "has_shape4 b h k dp out"
    unfolding batch_matmul_def
    using broadcast_axis2_shape [OF W assms(3), of matmul k dp] matmul_shape [OF _ _ assms(5)]
    by blast
  show ?thesis
    using L(1) A(1) out W by (simp add: scaled_dot_product_attention_def)
qed

lemma axis2_len_shape:
  assumes "has_shape4 b h k dp t" "0 < b" "0 < h"
  shows "axis2_len t = k"
proof -
  obtain t0 ts where t: "t = t0 # ts" using assms(1,2) by (cases t) (auto simp: has_shape4_iff)
  then have t0: "has_shape3 h k dp t0" using assms(1) by (simp add: has_shape4_iff)
  then obtain m ms where m: "t0 = m # ms" using assms(3) by (cases t0) (auto simp: has_shape3_iff)
  then have "length m = k" using t0 by (simp add: has_shape3_iff has_shape2_iff)
  then show ?thesis using t m by (simp add: axis2_len_def)
qed

lemma transpose_0213_shape:
  assumes "has_shape4 b h k dp t"
  shows "has_shape4 b k h dp (transpose_0213 k t)"
  unfolding has_shape4_iff has_shape3_iff has_shape2_iff
proof (intro conjI ballI)
  show "length (transpose_0213 k t) = b"
    using assms by (simp add: transpose_0213_def has_shape4_iff)
next
  fix u assume "u \<in> set (transpose_0213 k t)"
  then obtain m where m: "m \<in> set t" "u = map (\<lambda>j. map (\<lambda>row. row ! j) m) [0..<k]"
    by (auto simp: transpose_0213_def)
  have mm: "length m = h" "\<And>a. a \<in> set m \<Longrightarrow> length a = k"
    "\<And>a r. a \<in> set m \<Longrightarrow> r \<in> set a \<Longrightarrow> length r = dp"
    using m(1) assms by (auto simp: has_shape4_iff has_shape3_iff has_shape2_iff)
  show "length u = k" using m(2) by simp
  fix p assume "p \<in> set u"
  then obtain j where j: "j < k" "p = map (\<lambda>row. row ! j) m" using m(2) by auto
  show "length p = h" using j mm(1) by simp
  fix c assume "c \<in> set p"
  then obtain a where a: "a \<in> set m" "c = a ! j" using j by auto
  have "a ! j \<in> set a" using mm(2) [OF a(1)] j(1) by simp
  then show "length c = dp" using mm(3) [OF a(1)] a(2) by simp
qed

lemma MultiHeadAttention_call_shape:
  assumes "has_shape3 b k d q" "has_shape3 b n d kx" "has_shape3 b n d vx"
    and "0 < b" "0 < h" "0 < d" "d mod h = 0" "0 < n"
    and "num_heads self = h" "d_model self = d" "depth self = d div h"
    and "has_shape2 d d (wq self)" "has_shape2 d d (wk self)" "has_shape2 d d (wv self)"
      "has_shape2 d d (ff self)"
    and "mask_broadcastable b h k n msk"
  shows "\<exists>out w. MultiHeadAttention_call self q kx vx msk = Inr (out, w) \<and> has_shape3 b k d out"
proof -
  define dp where "dp = d div h"
  have d: "d = h * dp" using assms(7) unfolding dp_def by (metis mult_div_mod_eq add.right_neutral)
  have dp: "0 < dp" using assms(5,6) d by (cases dp) auto
  have lq: "length q = b" using assms(1) by (simp add: has_shape3_iff)
  note self = assms(9) assms(11) [folded dp_def]
  obtain q1 where q1: "dense (wq self) q = Inr q1" "has_shape3 b k d q1"
    using dense_shape [OF assms(1,12)] by blast
  obtain k1 where k1: "dense (wk self) kx = Inr k1" "has_shape3 b n d k1"
    using dense_shape [OF assms(2,13)] by blast
  obtain v1 where v1: "dense (wv self) vx = Inr v1" "has_shape3 b n d v1"
    using dense_shape [OF assms(3,14)] by blast
  obtain q2 where q2: "split_heads self q1 b = Inr q2" "has_shape4 b h k dp q2"
    using split_heads_shape [OF q1(2) [unfolded d] assms(4,5) dp self] by blast
  obtain k2 where k2: "split_heads self k1 b = Inr k2" "has_shape4 b h n dp k2"
    using split_heads_shape [OF k1(2) [unfolded d] assms(4,5) dp self] by blast
  obtain v2 where v2: "split_heads self v1 b = Inr v2" "has_shape4 b h n dp v2"
    using split_heads_shape [OF v1(2) [unfolded d] assms(4,5) dp self] by blast
  obtain att w where att: "scaled_dot_product_attention q2 k2 v2 msk = Inr (att, w)"
    "has_shape4 b h k dp att"
    using scaled_dot_product_attention_shape [OF q2(2) k2(2) v2(2) assms(16,8)] by blast
  have ax: "axis2_len att = k" using axis2_len_shape [OF att(2) assms(4,5)] .
  have tr: "has_shape4 b k h dp (transpose_0213 k att)"
    using att(2) by (rule transpose_0213_shape)
  obtain c where c: "reshape_concat b d (transpose_0213 k att) = Inr c" "has_shape3 b k d c"
    using reshape_concat_shape [OF tr assms(4,5) dp] d by auto
  obtain out where out: "dense (ff self) c = Inr out" "has_shape3 b k d out"
    using dense_shape [OF c(2) assms(15)] by blast
  show ?thesis
    using q1 k1 v1 q2 k2 v2 att ax c out lq assms(10)
    by (simp add: MultiHeadAttention_call_def)
qed

lemma PointwiseFeedforward_call_shape:
  assumes "has_shape3 b k d x" "has_shape2 d d (ff1_kernel self)" "length (ff1_bias self) = d"
    "has_shape2 d d (ff2_kernel self)" "length (ff2_bias self) = d"
  shows "\<exists>y. PointwiseFeedforward_call self x = Inr y \<and> has_shape3 b k d y"
proof -
  obtain x1 where x1: "dense_bias (ff1_kernel self) (ff1_bias self) x = Inr x1" "has_shape3 b k d x1"
    using dense_bias_shape [OF assms(1-3)] by blast
  have "has_shape3 b k d (map (map (map leaky_relu)) x1)"
    using x1(2) by (auto simp: has_shape3_iff has_shape2_iff)
  from dense_bias_shape [OF this assms(4,5)] show ?thesis
    using x1(1) by (simp add: PointwiseFeedforward_call_def)
qed

lemma tf_tile0_shape:
  assumes "has_shape3 1 k d s"
  shows "has_shape3 b k d (tf_tile0 b s)"
proof -
  obtain m where s: "s = [m]" "has_shape2 k d m"
    using assms by (cases s) (auto simp: has_shape3_iff)
  then have "tf_tile0 b s = replicate b m"
    by (induction b) (simp_all add: tf_tile0_def)
  then show ?thesis using s(2) by (simp add: has_shape3_iff)
qed

lemma TransformerLayer_call_shape:
  assumes "has_shape3 b k d x" "has_shape3 b n d y"
    and "0 < b" "0 < h" "0 < d" "d mod h = 0" "0 < n"
    and "num_heads (mha self) = h" "d_model (mha self) = d" "depth (mha self) = d div h"
    and "has_shape2 d d (wq (mha self))" "has_shape2 d d (wk (mha self))"
      "has_shape2 d d (wv (mha self))" "has_shape2 d d (ff (mha self))"
    and "has_shape2 d d (ff1_kernel (ffn self))" "length (ff1_bias (ffn self)) = d"
      "has_shape2 d d (ff2_kernel (ffn self))" "length (ff2_bias (ffn self)) = d"
    and "length (layernorm1_gamma self) = d" "length (layernorm1_beta self) = d"
      "length (layernorm2_gamma self) = d" "length (layernorm2_beta self) = d"
    and "mask_broadcastable b h k n msk"
  shows "\<exists>out. TransformerLayer_call self x y msk = Inr out \<and> has_shape3 b k d out"
proof -
  obtain attn w where attn: "MultiHeadAttention_call (mha self) x y y msk = Inr (attn, w)"
    "has_shape3 b k d attn"
    using MultiHeadAttention_call_shape [OF assms(1,2,2) assms(3-7) assms(8-14) assms(23)]
    by blast
  obtain sum1 where sum1: "tf_add3 x attn = Inr sum1" "has_shape3 b k d sum1"
    using tf_add3_shape [OF assms(1) attn(2)] by blast
  obtain out1 where out1: "layer_norm (layernorm1_gamma self) (layernorm1_beta self) sum1 = Inr out1"
    "has_shape3 b k d out1"
    using layer_norm_shape [OF sum1(2) assms(19,20)] by blast
  obtain f where f: "PointwiseFeedforward_call (ffn self) out1 = Inr f" "has_shape3 b k d f"
    using PointwiseFeedforward_call_shape [OF out1(2) assms(15-18)] by blast
  obtain sum2 where sum2: "tf_add3 out1 f = Inr sum2" "has_shape3 b k d sum2"
    using tf_add3_shape [OF out1(2) f(2)] by blast
  obtain out2 where out2: "layer_norm (layernorm2_gamma self) (layernorm2_beta self) sum2 = Inr out2"
    "has_shape3 b k d out2"
    using layer_norm_shape [OF sum2(2) assms(21,22)] by blast
  show ?thesis
    using attn sum1 out1 f sum2 out2 by (simp add: TransformerLayer_call_def)
qed

text \<open>
  C4. For a layer built for \<open>d_model\<close>, \<open>num_heads\<close> and \<open>num_seed_vectors\<close>, an input of shape
  \<open>(batch, n, d_model)\<close> with at least one batch entry and at least one element in the set,
  and no mask or a mask whose shape can be broadcast to
  \<open>(batch, num_heads, num_seed_vectors, n)\<close>, \<^verbatim>\<open>PoolingMultiheadAttention.call\<close> returns, and
  what it returns has the shape \<open>(batch, num_seed_vectors, d_model)\<close>, whatever \<open>n\<close> is.
\<close>

theorem PoolingMultiheadAttention_call_shape:
  assumes "built d h k self" and "has_shape3 b n d x" and "0 < b" and "0 < n"
    and "mask_broadcastable b h k n msk"
  shows "\<exists>out. PoolingMultiheadAttention_call self x msk = Inr out \<and> has_shape3 b k d out"
proof -
  have lx: "length x = b" using assms(2) by (simp add: has_shape3_iff)
  have s: "has_shape3 b k d (tf_tile0 b (seed_vectors self))"
    using assms(1) by (intro tf_tile0_shape) (simp add: built_def)
  have "\<exists>out. TransformerLayer_call (mab self) (tf_tile0 b (seed_vectors self)) x msk = Inr out
      \<and> has_shape3 b k d out"
    by (rule TransformerLayer_call_shape [OF s assms(2,3) _ _ _ assms(4)])
      (use assms(1,5) in \<open>simp_all add: built_def\<close>)
  then show ?thesis by (simp add: PoolingMultiheadAttention_call_def lx)
qed

theorem PoolingMultiheadAttention_call_shape_witness:
  "built 2 1 1 example_pma
   \<and> has_shape3 1 3 2 [[[1, 2], [3, 4], [5, 6::real]]] \<and> has_shape3 1 1 2 [[[1, 2::real]]]
   \<and> (0::nat) < 1 \<and> (0::nat) < 3
   \<and> mask_broadcastable 1 1 1 3 (Some [[[[0, 0, 1]]]]) \<and> mask_broadcastable 1 1 1 1 None
   \<and> (\<exists>out. PoolingMultiheadAttention_call example_pma [[[1, 2], [3, 4], [5, 6]]]
          (Some [[[[0, 0, 1]]]]) = Inr out \<and> has_shape3 1 1 2 out)
   \<and> (\<exists>out. PoolingMultiheadAttention_call example_pma [[[1, 2]]] None = Inr out
          \<and> has_shape3 1 1 2 out)"
proof -
  have b: "built 2 1 1 example_pma"
    by (simp add: built_def example_pma_def has_shape2_def has_shape3_def)
  have x3: "has_shape3 1 3 2 [[[1, 2], [3, 4], [5, 6::real]]]"
    and x1: "has_shape3 1 1 2 [[[1, 2::real]]]"
    by (simp_all add: has_shape2_def has_shape3_def)
  have m3: "mask_broadcastable 1 1 1 3 (Some [[[[0, 0, 1]]]])"
    and m1: "mask_broadcastable 1 1 1 1 None"
    by (simp_all add: mask_broadcastable_def has_shape4_def has_shape3_def has_shape2_def)
  show ?thesis
    using PoolingMultiheadAttention_call_shape [OF b x3 _ _ m3]
      PoolingMultiheadAttention_call_shape [OF b x1 _ _ m1] b x3 x1 m3 m1
    by simp
qed

subsection \<open>Set transformer: permutations of the set\<close>

lemma permute_rows_length [simp]: "length (permute_rows p xs) = length xs"
  by (simp add: permute_rows_def)

lemma permute_rows_nth:
  "i < length xs \<Longrightarrow> permute_rows p xs ! i = xs ! p i"
  by (simp add: permute_rows_def)

lemma bij_betw_less:
  assumes "bij_betw p {..<n} {..<n}" "i < n"
  shows "p i < n"
  using assms bij_betwE by fastforce

lemma permute_rows_map:
  assumes "bij_betw p {..<length xs} {..<length xs}"
  shows "map f (permute_rows p xs) = permute_rows p (map f xs)"
  using bij_betw_less [OF assms] by (simp add: permute_rows_def)

lemma permute_rows_zip:
  assumes "bij_betw p {..<length xs} {..<length xs}" "length ys = length xs"
  shows "zip (permute_rows p xs) (permute_rows p ys) = permute_rows p (zip xs ys)"
proof (rule nth_equalityI)
  show "length (zip (permute_rows p xs) (permute_rows p ys)) = length (permute_rows p (zip xs ys))"
    using assms(2) by simp
next
  fix i assume "i < length (zip (permute_rows p xs) (permute_rows p ys))"
  then have i: "i < length xs" using assms(2) by simp
  then have "p i < length xs" using bij_betw_less [OF assms(1)] by simp
  then show "zip (permute_rows p xs) (permute_rows p ys) ! i = permute_rows p (zip xs ys) ! i"
    using i assms(2) by (simp add: permute_rows_nth)
qed

lemma permute_rows_mset:
  assumes "bij_betw p {..<length xs} {..<length xs}"
  shows "mset (permute_rows p xs) = mset xs"
proof -
  have "mset (permute_rows p xs) = image_mset (nth xs) (image_mset p (mset_set {0..<length xs}))"
    by (simp add: permute_rows_def multiset.map_comp comp_def)
  also have "image_mset p (mset_set {0..<length xs}) = mset_set (p ` {0..<length xs})"
    using assms by (intro image_mset_mset_set) (auto simp: bij_betw_def atLeast0LessThan)
  also have "p ` {0..<length xs} = {0..<length xs}"
    using assms by (simp add: bij_betw_def atLeast0LessThan)
  also have "image_mset (nth xs) (mset_set {0..<length xs}) = mset (map (nth xs) [0..<length xs])"
    by simp
  also have "\<dots> = mset xs" by (simp only: map_nth)
  finally show ?thesis .
qed

lemma permute_rows_set:
  assumes "bij_betw p {..<length xs} {..<length xs}"
  shows "set (permute_rows p xs) = set xs"
  using permute_rows_mset [OF assms] by (metis set_mset_mset)

lemma permute_rows_sum_list:
  fixes xs :: "real list"
  assumes "bij_betw p {..<length xs} {..<length xs}"
  shows "sum_list (permute_rows p xs) = sum_list xs"
  using permute_rows_mset [OF assms] by (metis sum_mset_sum_list)

lemma permute_rows_single:
  assumes "bij_betw p {..<1} {..<1}" "length xs = 1"
  shows "permute_rows p xs = xs"
proof -
  have "p 0 = 0" using bij_betw_less [OF assms(1), of 0] by simp
  then show ?thesis using assms(2) by (cases xs) (simp_all add: permute_rows_def)
qed

lemma sequence_err_map_sum:
  "sequence_err (map (\<lambda>x. map_sum id g (f x)) xs) = map_sum id (map g) (sequence_err (map f xs))"
proof (induction xs)
  case Nil
  then show ?case by simp
next
  case (Cons x xs)
  show ?case
  proof (cases "f x")
    case (Inl e)
    then show ?thesis by simp
  next
    case (Inr z)
    then show ?thesis using Cons by (cases "sequence_err (map f xs)") simp_all
  qed
qed

lemma sequence_err_cong:
  "(\<And>x. x \<in> set xs \<Longrightarrow> f x = g x) \<Longrightarrow> sequence_err (map f xs) = sequence_err (map g xs)"
  by (induction xs) auto

text \<open>Broadcasting commutes with maps on the arguments that the operation turns into a map
  on its result.\<close>

lemma broadcast_axis_map:
  assumes "\<And>x y. x \<in> set xs \<Longrightarrow> y \<in> set ys \<Longrightarrow> f (u x) (v y) = map_sum id g (f x y)"
  shows "broadcast_axis f (map u xs) (map v ys) = map_sum id (map g) (broadcast_axis f xs ys)"
proof -
  have same: "sequence_err (map2 f (map u xs) (map v ys))
      = map_sum id (map g) (sequence_err (map2 f xs ys))"
  proof -
    have "map2 f (map u xs) (map v ys) = map (\<lambda>(x, y). f (u x) (v y)) (zip xs ys)"
      by (simp add: zip_map_map case_prod_beta)
    also have "sequence_err \<dots> = sequence_err (map (\<lambda>xy. map_sum id g (case xy of (x, y) \<Rightarrow> f x y)) (zip xs ys))"
    proof (rule sequence_err_cong)
      fix xy assume "xy \<in> set (zip xs ys)"
      then obtain x y where "xy = (x, y)" "x \<in> set xs" "y \<in> set ys"
        by (metis set_zip_leftD set_zip_rightD surj_pair)
      then show "(case xy of (x, y) \<Rightarrow> f (u x) (v y)) = map_sum id g (case xy of (x, y) \<Rightarrow> f x y)"
        using assms by simp
    qed
    finally show ?thesis by (simp only: sequence_err_map_sum)
  qed
  have right: "sequence_err (map (\<lambda>x. f x (hd (map v ys))) (map u xs))
      = map_sum id (map g) (sequence_err (map (\<lambda>x. f x (hd ys)) xs))" if "length ys = 1"
  proof -
    have hd: "hd ys \<in> set ys" "hd (map v ys) = v (hd ys)" using that by (cases ys; simp)+
    have "sequence_err (map (\<lambda>x. f x (hd (map v ys))) (map u xs))
        = sequence_err (map (\<lambda>x. f (u x) (v (hd ys))) xs)"
      by (simp add: hd comp_def)
    also have "\<dots> = sequence_err (map (\<lambda>x. map_sum id g (f x (hd ys))) xs)"
      by (rule sequence_err_cong) (use assms hd(1) in simp)
    finally show ?thesis by (simp only: sequence_err_map_sum)
  qed
  have left: "sequence_err (map (f (hd (map u xs))) (map v ys))
      = map_sum id (map g) (sequence_err (map (f (hd xs)) ys))" if "length xs = 1"
  proof -
    have hd: "hd xs \<in> set xs" "hd (map u xs) = u (hd xs)" using that by (cases xs; simp)+
    have "sequence_err (map (f (hd (map u xs))) (map v ys))
        = sequence_err (map (\<lambda>y. f (u (hd xs)) (v y)) ys)"
      by (simp add: hd comp_def)
    also have "\<dots> = sequence_err (map (\<lambda>y. map_sum id g (f (hd xs) y)) ys)"
      by (rule sequence_err_cong) (use assms hd(1) in simp)
    finally show ?thesis by (simp only: sequence_err_map_sum)
  qed
  show ?thesis
    unfolding broadcast_axis_def using same right left by simp
qed

lemma matmul_nt_permute:
  assumes "bij_betw p {..<length bm} {..<length bm}"
  shows "matmul_nt a (permute_rows p bm) = map_sum id (map (permute_rows p)) (matmul_nt a bm)"
proof -
  have "list_all (\<lambda>r. list_all (\<lambda>s. length s = length r) (permute_rows p bm)) a
      \<longleftrightarrow> list_all (\<lambda>r. list_all (\<lambda>s. length s = length r) bm) a"
    by (simp add: list_all_iff permute_rows_set [OF assms])
  moreover have "map (\<lambda>r. map (dot r) (permute_rows p bm)) a
      = map (permute_rows p) (map (\<lambda>r. map (dot r) bm) a)"
    by (simp add: permute_rows_map [OF assms])
  ultimately show ?thesis by (simp add: matmul_nt_def)
qed

lemma matmul_explicit:
  assumes "has_shape2 k n a" "has_shape2 n dp v" "0 < n"
  shows "matmul a v =
      Inr (map (\<lambda>r. map (\<lambda>c. sum_list (map2 (\<lambda>w s. w * s ! c) r v)) [0..<dp]) a)"
proof -
  obtain s0 ss where v: "v = s0 # ss" using assms(2,3) by (cases v) (auto simp: has_shape2_iff)
  then have cols: "(case v of [] \<Rightarrow> 0 | s0 # ss \<Rightarrow> length s0) = dp"
    using assms(2) by (simp add: has_shape2_iff)
  have "list_all (\<lambda>r. length r = length v) a" "list_all (\<lambda>s. length s = dp) v"
    using assms by (auto simp: has_shape2_iff list_all_iff)
  then show ?thesis unfolding matmul_def cols by simp
qed

lemma has_shape2_permute:
  assumes "bij_betw p {..<n} {..<n}" "has_shape2 n d m"
  shows "has_shape2 n d (permute_rows p m)"
proof -
  have "bij_betw p {..<length m} {..<length m}" using assms by (simp add: has_shape2_iff)
  from permute_rows_set [OF this] show ?thesis using assms(2) by (simp add: has_shape2_iff)
qed

lemma matmul_permute:
  assumes "bij_betw p {..<n} {..<n}" "has_shape2 k n a" "has_shape2 n dp v" "0 < n"
  shows "matmul (map (permute_rows p) a) (permute_rows p v) = matmul a v"
proof -
  have a': "has_shape2 k n (map (permute_rows p) a)"
    using assms(2) by (auto simp: has_shape2_iff)
  have v': "has_shape2 n dp (permute_rows p v)"
    using assms(1,3) by (rule has_shape2_permute)
  have lv: "length v = n" using assms(3) by (simp add: has_shape2_iff)
  have row: "sum_list (map2 (\<lambda>w s. w * s ! c) (permute_rows p r) (permute_rows p v))
      = sum_list (map2 (\<lambda>w s. w * s ! c) r v)" if "r \<in> set a" for r c
  proof -
    have lr: "length r = n" using that assms(2) by (simp add: has_shape2_iff)
    have bz: "bij_betw p {..<length (zip r v)} {..<length (zip r v)}"
      using assms(1) lr lv by simp
    have "zip (permute_rows p r) (permute_rows p v) = permute_rows p (zip r v)"
      by (rule permute_rows_zip) (use assms(1) lr lv in auto)
    then have "map2 (\<lambda>w s. w * s ! c) (permute_rows p r) (permute_rows p v)
        = permute_rows p (map2 (\<lambda>w s. w * s ! c) r v)"
      using permute_rows_map [OF bz] by simp
    moreover have "bij_betw p {..<length (map2 (\<lambda>w s. w * s ! c) r v)}
        {..<length (map2 (\<lambda>w s. w * s ! c) r v)}"
      using bz by simp
    ultimately show ?thesis using permute_rows_sum_list by metis
  qed
  have "map (\<lambda>r. map (\<lambda>c. sum_list (map2 (\<lambda>w s. w * s ! c) r (permute_rows p v))) [0..<dp])
        (map (permute_rows p) a)
      = map (\<lambda>r. map (\<lambda>c. sum_list (map2 (\<lambda>w s. w * s ! c) r v)) [0..<dp]) a"
    using row by (simp add: comp_def)
  then show ?thesis
    using matmul_explicit [OF a' v' assms(4)] matmul_explicit [OF assms(2,3,4)] by simp
qed

lemma softmax_permute:
  assumes "bij_betw p {..<length l} {..<length l}"
  shows "softmax (permute_rows p l) = permute_rows p (softmax l)"
proof -
  have "bij_betw p {..<length (map exp l)} {..<length (map exp l)}" using assms by simp
  then have "sum_list (permute_rows p (map exp l)) = sum_list (map exp l)"
    by (rule permute_rows_sum_list)
  then have "sum_list (map exp (permute_rows p l)) = sum_list (map exp l)"
    using permute_rows_map [OF assms, of exp] by simp
  then show ?thesis
    using permute_rows_map [OF assms, of "\<lambda>y. exp y / sum_list (map exp l)"]
    by (simp add: softmax_def)
qed

text \<open>One row of logits and one row of the mask, both in the new order.\<close>

lemma add_row_permute:
  assumes "bij_betw p {..<n} {..<n}" "length r = n" "length s = n \<or> length s = 1"
  shows "broadcast_axis add_scalar (permute_rows p r)
        (if length s = 1 then s else permute_rows p s)
      = map_sum id (permute_rows p) (broadcast_axis add_scalar r s)"
proof (cases "length s = 1")
  case True
  have seq: "sequence_err (map (\<lambda>x. add_scalar x y) xs) = Inr (map (\<lambda>x. x + y) xs)" for xs y
    by (rule sequence_err_map) (simp add: add_scalar_def)
  have seq2: "sequence_err (map2 add_scalar xs ys) = Inr (map2 (+) xs ys)" for xs ys
    using sequence_err_map [of "zip xs ys" "\<lambda>(x, y). add_scalar x y" "\<lambda>(x, y). x + y"]
    by (auto simp: add_scalar_def)
  show ?thesis
  proof (cases "n = 1")
    case True
    then have "permute_rows p r = r" using permute_rows_single assms(1,2) by auto
    moreover have "map_sum id (permute_rows p) (broadcast_axis add_scalar r s)
        = broadcast_axis add_scalar r s"
    proof -
      have "broadcast_axis add_scalar r s = Inr (map2 (+) r s)"
        using True \<open>length s = 1\<close> assms(2) seq2 by (simp add: broadcast_axis_def)
      moreover have "permute_rows p (map2 (+) r s) = map2 (+) r s"
        using permute_rows_single [of p "map2 (+) r s"] assms(1,2) True \<open>length s = 1\<close> by simp
      ultimately show ?thesis by simp
    qed
    ultimately show ?thesis using \<open>length s = 1\<close> by simp
  next
    case False
    have br: "bij_betw p {..<length r} {..<length r}" using assms(1,2) by simp
    have "broadcast_axis add_scalar (permute_rows p r) s
        = Inr (map (\<lambda>x. x + hd s) (permute_rows p r))"
      using False True assms(2) seq by (simp add: broadcast_axis_def)
    moreover have "broadcast_axis add_scalar r s = Inr (map (\<lambda>x. x + hd s) r)"
      using False True assms(2) seq by (simp add: broadcast_axis_def)
    ultimately show ?thesis using True permute_rows_map [OF br] by simp
  qed
next
  case False
  then have ls: "length s = n" using assms(3) by simp
  have seq2: "sequence_err (map2 add_scalar xs ys) = Inr (map2 (+) xs ys)" for xs ys
    using sequence_err_map [of "zip xs ys" "\<lambda>(x, y). add_scalar x y" "\<lambda>(x, y). x + y"]
    by (auto simp: add_scalar_def)
  have bz: "bij_betw p {..<length (zip r s)} {..<length (zip r s)}"
    using assms(1,2) ls by simp
  have "zip (permute_rows p r) (permute_rows p s) = permute_rows p (zip r s)"
    by (rule permute_rows_zip) (use assms(1,2) ls in auto)
  then have "map2 (+) (permute_rows p r) (permute_rows p s) = permute_rows p (map2 (+) r s)"
    using permute_rows_map [OF bz] by simp
  moreover have "broadcast_axis add_scalar (permute_rows p r) (permute_rows p s)
      = Inr (map2 (+) (permute_rows p r) (permute_rows p s))"
    using assms(2) ls seq2 by (simp add: broadcast_axis_def)
  moreover have "broadcast_axis add_scalar r s = Inr (map2 (+) r s)"
    using assms(2) ls seq2 by (simp add: broadcast_axis_def)
  ultimately show ?thesis using False by simp
qed

lemma broadcast_axis_map_right:
  assumes "\<And>x y. x \<in> set xs \<Longrightarrow> y \<in> set ys \<Longrightarrow> f x (v y) = map_sum id g (f x y)"
  shows "broadcast_axis f xs (map v ys) = map_sum id (map g) (broadcast_axis f xs ys)"
  using broadcast_axis_map [of xs ys f "\<lambda>x. x" v g] assms by simp

lemma map_sum_id_id: "map_sum id (\<lambda>x. x) r = r"
  by (cases r) simp_all

lemma broadcast_axis_map_same:
  assumes "\<And>x y. x \<in> set xs \<Longrightarrow> y \<in> set ys \<Longrightarrow> f (u x) (v y) = f x y"
  shows "broadcast_axis f (map u xs) (map v ys) = broadcast_axis f xs ys"
proof -
  have "broadcast_axis f (map u xs) (map v ys)
      = map_sum id (map (\<lambda>x. x)) (broadcast_axis f xs ys)"
    by (rule broadcast_axis_map) (use assms in \<open>simp add: map_sum_id_id\<close>)
  then show ?thesis by (simp add: map_sum_id_id)
qed

lemma last_len_shape:
  assumes "has_shape4 b h n dp t" "0 < b" "0 < h" "0 < n"
  shows "last_len t = dp"
proof -
  obtain t0 ts where t: "t = t0 # ts" using assms(1,2) by (cases t) (auto simp: has_shape4_iff)
  then have t0: "has_shape3 h n dp t0" using assms(1) by (simp add: has_shape4_iff)
  then obtain m ms where m: "t0 = m # ms" using assms(3) by (cases t0) (auto simp: has_shape3_iff)
  then have m2: "has_shape2 n dp m" using t0 by (simp add: has_shape3_iff)
  then obtain r rs where r: "m = r # rs" using assms(4) by (cases m) (auto simp: has_shape2_iff)
  then have "length r = dp" using m2 by (simp add: has_shape2_iff)
  then show ?thesis using t m r by (simp add: last_len_def)
qed

lemma has_shape4_permute:
  assumes "bij_betw p {..<n} {..<n}" "has_shape4 b h n dp t"
  shows "has_shape4 b h n dp (map (map (permute_rows p)) t)"
  using assms(2) has_shape2_permute [OF assms(1)]
  by (auto simp: has_shape4_iff has_shape3_iff)

lemma has_shape3_permute:
  assumes "bij_betw p {..<n} {..<n}" "has_shape3 b n d x"
  shows "has_shape3 b n d (permute_set p x)"
  using assms(2) has_shape2_permute [OF assms(1)]
  by (auto simp: has_shape3_iff permute_set_def)

lemma map4_permute:
  assumes "bij_betw p {..<n} {..<n}" "has_shape4 b h k n L"
  shows "map (map (map (map f))) (map (map (map (permute_rows p))) L)
    = map (map (map (permute_rows p))) (map (map (map (map f))) L)"
proof -
  have row: "map f (permute_rows p r) = permute_rows p (map f r)" if "length r = n" for r
    by (rule permute_rows_map) (use that assms(1) in simp)
  show ?thesis
    using assms(2) row by (auto simp: has_shape4_iff has_shape3_iff has_shape2_iff)
qed

lemma softmax3_permute:
  assumes "bij_betw p {..<n} {..<n}" "has_shape4 b h k n A"
  shows "map (map (map softmax)) (map (map (map (permute_rows p))) A)
    = map (map (map (permute_rows p))) (map (map (map softmax)) A)"
proof -
  have row: "softmax (permute_rows p r) = permute_rows p (softmax r)" if "length r = n" for r
    by (rule softmax_permute) (use that assms(1) in simp)
  show ?thesis
    using assms(2) row by (auto simp: has_shape4_iff has_shape3_iff has_shape2_iff)
qed

lemma batch_matmul_nt_permute:
  assumes "bij_betw p {..<n} {..<n}" "has_shape4 b h n dp kk"
  shows "batch_matmul_nt q (map (map (permute_rows p)) kk)
    = map_sum id (map (map (map (permute_rows p)))) (batch_matmul_nt q kk)"
  unfolding batch_matmul_nt_def
proof (rule broadcast_axis_map_right)
  fix x y assume y: "y \<in> set kk"
  show "broadcast_axis matmul_nt x (map (permute_rows p) y)
      = map_sum id (map (map (permute_rows p))) (broadcast_axis matmul_nt x y)"
  proof (rule broadcast_axis_map_right)
    fix a c assume "c \<in> set y"
    then have "length c = n" using y assms(2) by (auto simp: has_shape4_iff has_shape3_iff has_shape2_iff)
    then show "matmul_nt a (permute_rows p c) = map_sum id (map (permute_rows p)) (matmul_nt a c)"
      using matmul_nt_permute [of p c a] assms(1) by simp
  qed
qed

lemma batch_matmul_permute:
  assumes "bij_betw p {..<n} {..<n}" "has_shape4 b h k n W" "has_shape4 b h n dp v" "0 < n"
  shows "batch_matmul (map (map (map (permute_rows p))) W) (map (map (permute_rows p)) v)
    = batch_matmul W v"
  unfolding batch_matmul_def
proof (rule broadcast_axis_map_same)
  fix x y assume x: "x \<in> set W" and y: "y \<in> set v"
  show "broadcast_axis matmul (map (map (permute_rows p)) x) (map (permute_rows p) y)
      = broadcast_axis matmul x y"
  proof (rule broadcast_axis_map_same)
    fix a c assume "a \<in> set x" "c \<in> set y"
    then have "has_shape2 k n a" "has_shape2 n dp c"
      using x y assms(2,3) by (auto simp: has_shape4_iff has_shape3_iff)
    then show "matmul (map (permute_rows p) a) (permute_rows p c) = matmul a c"
      using matmul_permute [OF assms(1) _ _ assms(4)] by blast
  qed
qed

text \<open>The mask in the new order of the keys, and the logits likewise.\<close>

lemma tf_add4_permute:
  assumes "bij_betw p {..<n} {..<n}" "has_shape4 b h k n S" "has_shape4 b' h' k' n' m"
    "n' = n \<or> n' = 1"
  shows "tf_add4 (map (map (map (permute_rows p))) S)
        (map (map (map (\<lambda>r. if length r = 1 then r else permute_rows p r))) m)
    = map_sum id (map (map (map (permute_rows p)))) (tf_add4 S m)"
  unfolding tf_add4_def
proof (rule broadcast_axis_map)
  fix x y assume x: "x \<in> set S" and y: "y \<in> set m"
  show "broadcast_axis (broadcast_axis (broadcast_axis add_scalar)) (map (map (permute_rows p)) x)
        (map (map (\<lambda>r. if length r = 1 then r else permute_rows p r)) y)
      = map_sum id (map (map (permute_rows p)))
          (broadcast_axis (broadcast_axis (broadcast_axis add_scalar)) x y)"
  proof (rule broadcast_axis_map)
    fix x1 y1 assume x1: "x1 \<in> set x" and y1: "y1 \<in> set y"
    show "broadcast_axis (broadcast_axis add_scalar) (map (permute_rows p) x1)
          (map (\<lambda>r. if length r = 1 then r else permute_rows p r) y1)
        = map_sum id (map (permute_rows p)) (broadcast_axis (broadcast_axis add_scalar) x1 y1)"
    proof (rule broadcast_axis_map)
      fix r s assume "r \<in> set x1" "s \<in> set y1"
      then have "length r = n" "length s = n \<or> length s = 1"
        using x x1 y y1 assms(2,3,4)
        by (auto simp: has_shape4_iff has_shape3_iff has_shape2_iff)
      then show "broadcast_axis add_scalar (permute_rows p r)
            (if length s = 1 then s else permute_rows p s)
          = map_sum id (permute_rows p) (broadcast_axis add_scalar r s)"
        by (rule add_row_permute [OF assms(1)])
    qed
  qed
qed

lemma mask_scale_permute:
  assumes "bij_betw p {..<n} {..<n}" "has_shape4 b' h' k' n' m" "n' = n \<or> n' = 1"
  shows "map (map (map (map f)))
        (map (map (map (\<lambda>r. if length r = 1 then r else permute_rows p r))) m)
    = map (map (map (\<lambda>r. if length r = 1 then r else permute_rows p r)))
        (map (map (map (map f))) m)"
proof -
  have row: "map f (if length r = 1 then r else permute_rows p r)
      = (if length (map f r) = 1 then map f r else permute_rows p (map f r))"
    if "length r = n'" for r
  proof (cases "length r = 1")
    case True
    then show ?thesis by simp
  next
    case False
    then have "length r = n" using that assms(3) by auto
    then have "map f (permute_rows p r) = permute_rows p (map f r)"
      using permute_rows_map [of p r f] assms(1) by simp
    then show ?thesis using False by simp
  qed
  show ?thesis
    using assms(2) row by (auto simp: has_shape4_iff has_shape3_iff has_shape2_iff)
qed

lemma scaled_dot_product_attention_permute:
  assumes "has_shape4 b h k dp q" "has_shape4 b h n dp kk" "has_shape4 b h n dp v"
    "mask_broadcastable b h k n msk" "0 < n" "0 < b" "0 < h" "bij_betw p {..<n} {..<n}"
  shows "\<exists>out w. scaled_dot_product_attention q kk v msk = Inr (out, w)
    \<and> has_shape4 b h k dp out
    \<and> scaled_dot_product_attention q (map (map (permute_rows p)) kk)
          (map (map (permute_rows p)) v) (permute_keys p msk)
        = Inr (out, map (map (map (permute_rows p))) w)"
proof -
  obtain L where L: "batch_matmul_nt q kk = Inr L" "has_shape4 b h k n L"
    unfolding batch_matmul_nt_def
    using broadcast_axis2_shape [OF assms(1,2), of matmul_nt k n] matmul_nt_shape by blast
  have L': "batch_matmul_nt q (map (map (permute_rows p)) kk)
      = Inr (map (map (map (permute_rows p))) L)"
    using batch_matmul_nt_permute [OF assms(8,2), of q] L(1) by simp
  have kk': "has_shape4 b h n dp (map (map (permute_rows p)) kk)"
    using assms(8,2) by (rule has_shape4_permute)
  have ll: "last_len (map (map (permute_rows p)) kk) = last_len kk"
    using last_len_shape [OF kk' assms(6,7,5)] last_len_shape [OF assms(2,6,7,5)] by simp
  define S where "S = map (map (map (map (\<lambda>x. x / sqrt (real (last_len kk)))))) L"
  define S' where "S' = map (map (map (map (\<lambda>x. x / sqrt (real (last_len kk))))))
        (map (map (map (permute_rows p))) L)"
  have S: "has_shape4 b h k n S" unfolding S_def using L(2) by (rule map4_shape)
  have S': "S' = map (map (map (permute_rows p))) S"
    unfolding S'_def S_def using assms(8) L(2) by (rule map4_permute)
  have "\<exists>A. (case msk of None \<Rightarrow> Inr S
        | Some m \<Rightarrow> tf_add4 S (map (map (map (map (\<lambda>x. x * - (10 ^ 9))))) m)) = Inr A
      \<and> has_shape4 b h k n A
      \<and> (case permute_keys p msk of None \<Rightarrow> Inr S'
        | Some m \<Rightarrow> tf_add4 S' (map (map (map (map (\<lambda>x. x * - (10 ^ 9))))) m))
         = Inr (map (map (map (permute_rows p))) A)"
  proof (cases msk)
    case None
    have pk: "permute_keys p None = None" by (simp add: permute_keys_def)
    show ?thesis unfolding None pk option.case using S S' by blast
  next
    case (Some m)
    then obtain b' h' k' n' where m: "has_shape4 b' h' k' n' m"
      "b' = b \<or> b' = 1" "h' = h \<or> h' = 1" "k' = k \<or> k' = 1" "n' = n \<or> n' = 1"
      using assms(4) by (auto simp: mask_broadcastable_def)
    define M where "M = map (map (map (map (\<lambda>x :: real. x * - (10 ^ 9))))) m"
    define m' where "m' = map (map (map (\<lambda>r :: real list. if length r = 1 then r else permute_rows p r))) m"
    have pk: "permute_keys p (Some m) = Some m'"
      by (simp add: permute_keys_def m'_def)
    have M: "has_shape4 b' h' k' n' M"
      unfolding M_def using m(1) by (rule map4_shape)
    obtain A where A: "tf_add4 S M = Inr A" "has_shape4 b h k n A"
      using tf_add4_mask_shape [OF S M m(2-5)] by blast
    have e1: "map (map (map (map (\<lambda>x. x * - (10 ^ 9))))) m'
        = map (map (map (\<lambda>r. if length r = 1 then r else permute_rows p r))) M"
      unfolding m'_def M_def using assms(8) m(1,5) by (rule mask_scale_permute)
    have e2: "tf_add4 (map (map (map (permute_rows p))) S)
          (map (map (map (\<lambda>r. if length r = 1 then r else permute_rows p r))) M)
        = map_sum id (map (map (map (permute_rows p)))) (tf_add4 S M)"
      using assms(8) S M m(5) by (rule tf_add4_permute)
    have third: "tf_add4 S' (map (map (map (map (\<lambda>x. x * - (10 ^ 9))))) m')
        = Inr (map (map (map (permute_rows p))) A)"
      by (simp only: S' e1 e2 A(1) map_sum.simps)
    show ?thesis unfolding Some pk option.case M_def [symmetric] using A third by blast
  qed
  then obtain A where A: "(case msk of None \<Rightarrow> Inr S
        | Some m \<Rightarrow> tf_add4 S (map (map (map (map (\<lambda>x. x * - (10 ^ 9))))) m)) = Inr A"
      "has_shape4 b h k n A"
      "(case permute_keys p msk of None \<Rightarrow> Inr S'
        | Some m \<Rightarrow> tf_add4 S' (map (map (map (map (\<lambda>x. x * - (10 ^ 9))))) m))
         = Inr (map (map (map (permute_rows p))) A)"
    by blast
  define W where "W = map (map (map softmax)) A"
  have W: "has_shape4 b h k n W"
    unfolding W_def using A(2)
    by (auto simp: has_shape4_iff has_shape3_iff has_shape2_iff softmax_length)
  have W': "map (map (map softmax)) (map (map (map (permute_rows p))) A)
      = map (map (map (permute_rows p))) W"
    unfolding W_def using assms(8) A(2) by (rule softmax3_permute)
  obtain out where out: "batch_matmul W v = Inr out" "has_shape4 b h k dp out"
    unfolding batch_matmul_def
    using broadcast_axis2_shape [OF W assms(3), of matmul k dp] matmul_shape [OF _ _ assms(5)]
    by blast
  have out': "batch_matmul (map (map (map (permute_rows p))) W) (map (map (permute_rows p)) v)
      = Inr out"
    using batch_matmul_permute [OF assms(8) W assms(3,5)] out(1) by simp
  have one: "scaled_dot_product_attention q kk v msk = Inr (out, W)"
    by (simp only: scaled_dot_product_attention_def L(1) bind_err.simps S_def [symmetric] A(1)
        W_def [symmetric] out(1))
  have two: "scaled_dot_product_attention q (map (map (permute_rows p)) kk)
          (map (map (permute_rows p)) v) (permute_keys p msk)
        = Inr (out, map (map (map (permute_rows p))) W)"
    by (simp only: scaled_dot_product_attention_def L' ll bind_err.simps S'_def [symmetric] A(3)
        W' out')
  show ?thesis using one two out(2) by blast
qed

lemma rows_permute_set:
  assumes "bij_betw p {..<n} {..<n}" "has_shape3 b n d x"
  shows "map (map f) (permute_set p x) = permute_set p (map (map f) x)"
proof -
  have row: "map f (permute_rows p m) = permute_rows p (map f m)" if "length m = n" for m
    by (rule permute_rows_map) (use that assms(1) in simp)
  show ?thesis
    using assms(2) row by (auto simp: permute_set_def has_shape3_iff has_shape2_iff)
qed

lemma heads_permute_set:
  assumes "bij_betw p {..<n} {..<n}" "has_shape3 b n d x"
  shows "map (\<lambda>m. map (\<lambda>j. map (g j) m) js) (permute_set p x)
    = map (map (permute_rows p)) (map (\<lambda>m. map (\<lambda>j. map (g j) m) js) x)"
proof -
  have row: "map (g j) (permute_rows p m) = permute_rows p (map (g j) m)" if "length m = n" for m j
    by (rule permute_rows_map) (use that assms(1) in simp)
  show ?thesis
    using assms(2) row by (auto simp: permute_set_def has_shape3_iff has_shape2_iff)
qed

lemma MultiHeadAttention_call_permute:
  assumes "has_shape3 b k d q" "has_shape3 b n d kx" "has_shape3 b n d vx"
    and "0 < b" "0 < h" "0 < d" "d mod h = 0" "0 < n"
    and "num_heads self = h" "d_model self = d" "depth self = d div h"
    and "has_shape2 d d (wq self)" "has_shape2 d d (wk self)" "has_shape2 d d (wv self)"
      "has_shape2 d d (ff self)"
    and "mask_broadcastable b h k n msk"
    and "bij_betw p {..<n} {..<n}"
  shows "\<exists>out w w'. MultiHeadAttention_call self q kx vx msk = Inr (out, w)
    \<and> MultiHeadAttention_call self q (permute_set p kx) (permute_set p vx) (permute_keys p msk)
        = Inr (out, w')"
proof -
  define dp where "dp = d div h"
  have d: "d = h * dp" using assms(7) unfolding dp_def by (metis mult_div_mod_eq add.right_neutral)
  have dp: "0 < dp" using assms(5,6) d by (cases dp) auto
  have lq: "length q = b" using assms(1) by (simp add: has_shape3_iff)
  note self = assms(9) assms(11) [folded dp_def]
  have kx': "has_shape3 b n d (permute_set p kx)"
    using assms(17,2) by (rule has_shape3_permute)
  have vx': "has_shape3 b n d (permute_set p vx)"
    using assms(17,3) by (rule has_shape3_permute)
  define q1 where "q1 = map (map (\<lambda>r. map (dot r) (wq self))) q"
  define k1 where "k1 = map (map (\<lambda>r. map (dot r) (wk self))) kx"
  define v1 where "v1 = map (map (\<lambda>r. map (dot r) (wv self))) vx"
  have q1: "dense (wq self) q = Inr q1" "has_shape3 b k d q1"
    using dense_shape [OF assms(1,12)] by (simp_all add: q1_def)
  have k1: "dense (wk self) kx = Inr k1" "has_shape3 b n d k1"
    using dense_shape [OF assms(2,13)] by (simp_all add: k1_def)
  have v1: "dense (wv self) vx = Inr v1" "has_shape3 b n d v1"
    using dense_shape [OF assms(3,14)] by (simp_all add: v1_def)
  have k1': "dense (wk self) (permute_set p kx) = Inr (permute_set p k1)"
    using dense_shape [OF kx' assms(13)] rows_permute_set [OF assms(17,2)]
    by (simp add: k1_def)
  have v1': "dense (wv self) (permute_set p vx) = Inr (permute_set p v1)"
    using dense_shape [OF vx' assms(14)] rows_permute_set [OF assms(17,3)]
    by (simp add: v1_def)
  have k1p: "has_shape3 b n (h * dp) (permute_set p k1)"
    using has_shape3_permute [OF assms(17) k1(2)] d by simp
  have v1p: "has_shape3 b n (h * dp) (permute_set p v1)"
    using has_shape3_permute [OF assms(17) v1(2)] d by simp
  define q2 where "q2 = map (\<lambda>m. map (\<lambda>j. map (\<lambda>r. chunks dp r ! j) m) [0..<h]) q1"
  define k2 where "k2 = map (\<lambda>m. map (\<lambda>j. map (\<lambda>r. chunks dp r ! j) m) [0..<h]) k1"
  define v2 where "v2 = map (\<lambda>m. map (\<lambda>j. map (\<lambda>r. chunks dp r ! j) m) [0..<h]) v1"
  have q2: "split_heads self q1 b = Inr q2" "has_shape4 b h k dp q2"
    using split_heads_shape [OF q1(2) [unfolded d] assms(4,5) dp self] by (simp_all add: q2_def)
  have k2: "split_heads self k1 b = Inr k2" "has_shape4 b h n dp k2"
    using split_heads_shape [OF k1(2) [unfolded d] assms(4,5) dp self] by (simp_all add: k2_def)
  have v2: "split_heads self v1 b = Inr v2" "has_shape4 b h n dp v2"
    using split_heads_shape [OF v1(2) [unfolded d] assms(4,5) dp self] by (simp_all add: v2_def)
  have k2': "split_heads self (permute_set p k1) b = Inr (map (map (permute_rows p)) k2)"
    using split_heads_shape [OF k1p assms(4,5) dp self]
      heads_permute_set [OF assms(17) k1(2), of "\<lambda>j r. chunks dp r ! j" "[0..<h]"]
    by (simp add: k2_def)
  have v2': "split_heads self (permute_set p v1) b = Inr (map (map (permute_rows p)) v2)"
    using split_heads_shape [OF v1p assms(4,5) dp self]
      heads_permute_set [OF assms(17) v1(2), of "\<lambda>j r. chunks dp r ! j" "[0..<h]"]
    by (simp add: v2_def)
  obtain att w where att: "scaled_dot_product_attention q2 k2 v2 msk = Inr (att, w)"
    "has_shape4 b h k dp att"
    "scaled_dot_product_attention q2 (map (map (permute_rows p)) k2)
        (map (map (permute_rows p)) v2) (permute_keys p msk)
      = Inr (att, map (map (map (permute_rows p))) w)"
    using scaled_dot_product_attention_permute
      [OF q2(2) k2(2) v2(2) assms(16,8,4,5,17)] by blast
  have ax: "axis2_len att = k" using axis2_len_shape [OF att(2) assms(4,5)] .
  have tr: "has_shape4 b k h dp (transpose_0213 k att)"
    using att(2) by (rule transpose_0213_shape)
  obtain c where c: "reshape_concat b d (transpose_0213 k att) = Inr c" "has_shape3 b k d c"
    using reshape_concat_shape [OF tr assms(4,5) dp] d by auto
  obtain out where out: "dense (ff self) c = Inr out" "has_shape3 b k d out"
    using dense_shape [OF c(2) assms(15)] by blast
  have one: "MultiHeadAttention_call self q kx vx msk = Inr (out, w)"
    using q1 k1 v1 q2 k2 v2 att(1) ax c out lq assms(10)
    by (simp add: MultiHeadAttention_call_def)
  have two: "MultiHeadAttention_call self q (permute_set p kx) (permute_set p vx)
        (permute_keys p msk) = Inr (out, map (map (map (permute_rows p))) w)"
    using q1 k1' v1' q2 k2' v2' att(3) ax c out lq assms(10)
    by (simp add: MultiHeadAttention_call_def)
  show ?thesis using one two by blast
qed

lemma TransformerLayer_call_permute:
  assumes "has_shape3 b k d x" "has_shape3 b n d y"
    and "0 < b" "0 < h" "0 < d" "d mod h = 0" "0 < n"
    and "num_heads (mha self) = h" "d_model (mha self) = d" "depth (mha self) = d div h"
    and "has_shape2 d d (wq (mha self))" "has_shape2 d d (wk (mha self))"
      "has_shape2 d d (wv (mha self))" "has_shape2 d d (ff (mha self))"
    and "mask_broadcastable b h k n msk"
    and "bij_betw p {..<n} {..<n}"
  shows "TransformerLayer_call self x (permute_set p y) (permute_keys p msk)
    = TransformerLayer_call self x y msk"
proof -
  obtain attn w w' where
    "MultiHeadAttention_call (mha self) x y y msk = Inr (attn, w)"
    "MultiHeadAttention_call (mha self) x (permute_set p y) (permute_set p y) (permute_keys p msk)
      = Inr (attn, w')"
    using MultiHeadAttention_call_permute
      [OF assms(1,2,2) assms(3-7) assms(8-14) assms(15) assms(16)]
    by blast
  then show ?thesis by (simp add: TransformerLayer_call_def)
qed

text \<open>
  C5. The pooling treats its input as a set. For a layer built for \<open>d_model\<close>, \<open>num_heads\<close>
  and \<open>num_seed_vectors\<close>, an input of shape \<open>(batch, n, d_model)\<close> with at least one batch
  entry and at least one element in the set, no mask or a mask whose shape can be broadcast
  to \<open>(batch, num_heads, num_seed_vectors, n)\<close>, and a permutation \<open>p\<close> of the \<open>n\<close> positions
  of the set: \<^verbatim>\<open>PoolingMultiheadAttention.call\<close> returns, and it returns the same output
  for the input whose rows are in the order of \<open>p\<close>, with the last axis of the mask in the
  same order, as for the input and the mask themselves. The attention weights, which the
  layer drops, are in the order of \<open>p\<close>. The arithmetic is exact.
\<close>

theorem PoolingMultiheadAttention_call_permutation:
  assumes "built d h k self" and "has_shape3 b n d x" and "0 < b" and "0 < n"
    and "mask_broadcastable b h k n msk"
    and "bij_betw p {..<n} {..<n}"
  shows "\<exists>out. PoolingMultiheadAttention_call self x msk = Inr out
    \<and> PoolingMultiheadAttention_call self (permute_set p x) (permute_keys p msk) = Inr out"
proof -
  have lx: "length x = b" using assms(2) by (simp add: has_shape3_iff)
  have lx': "length (permute_set p x) = b" using lx by (simp add: permute_set_def)
  have s: "has_shape3 b k d (tf_tile0 b (seed_vectors self))"
    using assms(1) by (intro tf_tile0_shape) (simp add: built_def)
  obtain out where out: "TransformerLayer_call (mab self) (tf_tile0 b (seed_vectors self)) x msk
      = Inr out"
    using TransformerLayer_call_shape [OF s assms(2,3) _ _ _ assms(4), of h "mab self" msk]
      assms(1,5)
    by (auto simp: built_def)
  have "TransformerLayer_call (mab self) (tf_tile0 b (seed_vectors self)) (permute_set p x)
        (permute_keys p msk)
      = TransformerLayer_call (mab self) (tf_tile0 b (seed_vectors self)) x msk"
    by (rule TransformerLayer_call_permute [OF s assms(2,3) _ _ _ assms(4)])
      (use assms(1,5,6) in \<open>simp_all add: built_def\<close>)
  then show ?thesis using out by (simp add: PoolingMultiheadAttention_call_def lx lx')
qed

theorem PoolingMultiheadAttention_call_permutation_witness:
  "built 2 1 1 example_pma
   \<and> has_shape3 1 3 2 [[[1, 2], [3, 4], [5, 6::real]]]
   \<and> (0::nat) < 1 \<and> (0::nat) < 3
   \<and> mask_broadcastable 1 1 1 3 (Some [[[[1, 0, 0]]]])
   \<and> bij_betw (\<lambda>i. if i = 0 then 2 else if i = 2 then 0 else i) {..<3::nat} {..<3}
   \<and> permute_set (\<lambda>i. if i = 0 then 2 else if i = 2 then 0 else i) [[[1, 2], [3, 4], [5, 6]]]
        = [[[5, 6], [3, 4], [1, 2]]]
   \<and> permute_keys (\<lambda>i. if i = 0 then 2 else if i = 2 then 0 else i) (Some [[[[1, 0, 0]]]])
        = Some [[[[0, 0, 1]]]]
   \<and> (\<exists>out. PoolingMultiheadAttention_call example_pma [[[1, 2], [3, 4], [5, 6]]]
          (Some [[[[1, 0, 0]]]]) = Inr out
        \<and> PoolingMultiheadAttention_call example_pma [[[5, 6], [3, 4], [1, 2]]]
          (Some [[[[0, 0, 1]]]]) = Inr out)"
proof -
  have b: "built 2 1 1 example_pma"
    by (simp add: built_def example_pma_def has_shape2_def has_shape3_def)
  have x3: "has_shape3 1 3 2 [[[1, 2], [3, 4], [5, 6::real]]]"
    by (simp add: has_shape2_def has_shape3_def)
  have m3: "mask_broadcastable 1 1 1 3 (Some [[[[1, 0, 0]]]])"
    by (simp add: mask_broadcastable_def has_shape4_def has_shape3_def has_shape2_def)
  have three: "{..<3::nat} = {0, 1, 2}" by auto
  have bij: "bij_betw (\<lambda>i. if i = 0 then 2 else if i = 2 then 0 else i) {..<3::nat} {..<3}"
    unfolding three by (auto simp: bij_betw_def inj_on_def)
  have upt3: "[0..<3] = [0, 1, 2]" by (simp add: upt_conv_Cons)
  have px: "permute_set (\<lambda>i. if i = 0 then 2 else if i = 2 then 0 else i)
        [[[1, 2], [3, 4], [5, 6::real]]] = [[[5, 6], [3, 4], [1, 2]]]"
    by (simp add: permute_set_def permute_rows_def upt3)
  have pm: "permute_keys (\<lambda>i. if i = 0 then 2 else if i = 2 then 0 else i)
        (Some [[[[1, 0, 0::real]]]]) = Some [[[[0, 0, 1]]]]"
    by (simp add: permute_keys_def permute_rows_def upt3)
  show ?thesis
    using PoolingMultiheadAttention_call_permutation [OF b x3 _ _ m3 bij] b x3 m3 bij px pm
    by simp
qed

end
